theory Spec2Isabelle
  imports Main "HOL-Library.Sublist"
begin

section \<open>Strings of the host language\<close>

text \<open>
  A JavaScript string is modelled as a \<open>string\<close>: a list of 8-bit code units, the
  Latin-1 range of the UTF-16 code units the source works with. Offsets into a string
  (\<open>index\<close>, \<open>lastIndex\<close>, \<open>start\<close>, \<open>end\<close>) count code units, as in the source.
\<close>

text \<open>White space as \<open>String.prototype.trim\<close> and the class \<open>\s\<close> see it (within Latin-1):
  TAB, LF, VT, FF, CR, SP and NBSP.\<close>

definition is_space :: "char \<Rightarrow> bool" where
  "is_space c = (c \<in> set [CHR 0x09, CHR 0x0A, CHR 0x0B, CHR 0x0C, CHR 0x0D, CHR 0x20, CHR 0xA0])"

definition trim :: "string \<Rightarrow> string" where
  "trim s = rev (dropWhile is_space (rev (dropWhile is_space s)))"

text \<open>\<open>s.slice(a, b)\<close>: a negative offset counts from the end, both are clamped to the
  string, and an empty range gives the empty string. \<open>slice_from s a\<close> is \<open>s.slice(a)\<close>.\<close>

definition slice :: "string \<Rightarrow> int \<Rightarrow> int \<Rightarrow> string" where
  "slice s a b =
     (let n = int (length s);
          lo = (if a < 0 then max (n + a) 0 else min a n);
          hi = (if b < 0 then max (n + b) 0 else min b n)
      in take (nat (hi - lo)) (drop (nat lo) s))"

definition slice_from :: "string \<Rightarrow> int \<Rightarrow> string" where
  "slice_from s a = slice s a (int (length s))"

section \<open>Term definitions and matches (src/js/tooltip-manager.js)\<close>

text \<open>
  A tooltip definition \<open>{ id, triggers, title, body }\<close>. The type \<open>'p\<close> is the type of
  trigger patterns; the constructor of \<open>TooltipManager\<close> rebuilds every trigger with the
  global flag \<open>g\<close>, so each pattern below is a global regular expression.
\<close>

record 'p definition_rec =
  def_id :: string
  triggers :: "'p list"
  title :: string
  body :: string

text \<open>The object pushed for each raw match in \<open>findMatches\<close>:
  \<open>{ start, end, length, text, definitionId, context }\<close>.\<close>

record 'p match =
  start :: int
  end_m :: int
  length_m :: int
  text_m :: string
  definitionId :: string
  context_m :: "'p definition_rec"

text \<open>
  The regular-expression engine belongs to the JavaScript runtime, not to the repository,
  so it is a parameter: \<open>exec p s lastIndex\<close> is \<open>p.exec(s)\<close> for a global pattern \<open>p\<close>
  whose \<open>lastIndex\<close> is the given offset. \<open>None\<close> is the result \<open>null\<close>; \<open>Some (index, r0)\<close>
  is a result object with \<open>result.index = index\<close> and \<open>result[0] = r0\<close>, after which the
  runtime has set \<open>p.lastIndex\<close> to \<open>index + r0.length\<close>.
\<close>

type_synonym 'p engine = "'p \<Rightarrow> string \<Rightarrow> nat \<Rightarrow> (nat \<times> string) option"

text \<open>
  The inner loop of \<open>findMatches\<close>,
  \<^verbatim>\<open>while ((result = pattern.exec(text)) !== null) { matches.push({...}); }\<close>.
  Nothing in the source bounds it: a pattern that matches the empty string leaves
  \<open>lastIndex\<close> where it was and the loop never ends. Not returning is the value \<open>None\<close>.
\<close>

partial_function (option) exec_loop ::
  "'p engine \<Rightarrow> 'p definition_rec \<Rightarrow> 'p \<Rightarrow> string \<Rightarrow> nat \<Rightarrow> 'p match list
     \<Rightarrow> 'p match list option"
where
  "exec_loop exec d p s lastIndex matches =
     (case exec p s lastIndex of
        None \<Rightarrow> Some matches
      | Some (index, r0) \<Rightarrow>
          exec_loop exec d p s (index + length r0)
            (matches @
              [\<lparr> start = int index, end_m = int index + int (length r0),
                 length_m = int (length r0), text_m = r0,
                 definitionId = def_id d, context_m = d \<rparr>]))"

declare exec_loop.simps [code]

text \<open>\<open>definition.triggers.forEach(pattern => { pattern.lastIndex = 0; while ... })\<close>\<close>

fun scan_triggers ::
  "'p engine \<Rightarrow> 'p definition_rec \<Rightarrow> string \<Rightarrow> 'p list \<Rightarrow> 'p match list
     \<Rightarrow> 'p match list option"
where
  "scan_triggers exec d s [] matches = Some matches"
| "scan_triggers exec d s (p # ps) matches =
     (case exec_loop exec d p s 0 matches of
        None \<Rightarrow> None
      | Some matches' \<Rightarrow> scan_triggers exec d s ps matches')"

text \<open>\<open>this.definitions.forEach(definition => definition.triggers.forEach(...))\<close>\<close>

fun scan_definitions ::
  "'p engine \<Rightarrow> string \<Rightarrow> 'p definition_rec list \<Rightarrow> 'p match list \<Rightarrow> 'p match list option"
where
  "scan_definitions exec s [] matches = Some matches"
| "scan_definitions exec s (d # ds) matches =
     (case scan_triggers exec d s (triggers d) matches of
        None \<Rightarrow> None
      | Some matches' \<Rightarrow> scan_definitions exec s ds matches')"

text \<open>The comparator handed to \<open>matches.sort\<close>.\<close>

definition compare_m :: "'p match \<Rightarrow> 'p match \<Rightarrow> int" where
  "compare_m a b =
     (if start a = start b then length_m b - length_m a else start a - start b)"

text \<open>
  \<open>Array.prototype.sort\<close> with a comparator is a stable sort (ECMAScript 2019): the
  result is the permutation ordered by the comparator in which elements that compare
  equal keep their order. Insertion from the right computes it.
\<close>

fun insert_m :: "'p match \<Rightarrow> 'p match list \<Rightarrow> 'p match list" where
  "insert_m x [] = [x]"
| "insert_m x (y # ys) = (if compare_m x y \<le> 0 then x # y # ys else y # insert_m x ys)"

definition sort_m :: "'p match list \<Rightarrow> 'p match list" where
  "sort_m ms = foldr insert_m ms []"

text \<open>
  The sweep: \<^verbatim>\<open>let currentEnd = -1; matches.forEach(match => { if (match.start >= currentEnd)
  { filtered.push(match); currentEnd = match.end; } })\<close>, with \<open>filtered\<close> and \<open>currentEnd\<close>
  as the loop's state.
\<close>

fun sweep :: "'p match list \<Rightarrow> int \<Rightarrow> 'p match list \<Rightarrow> 'p match list" where
  "sweep filtered currentEnd [] = filtered"
| "sweep filtered currentEnd (m # ms) =
     (if start m \<ge> currentEnd then sweep (filtered @ [m]) (end_m m) ms
      else sweep filtered currentEnd ms)"

definition findMatches ::
  "'p engine \<Rightarrow> 'p definition_rec list \<Rightarrow> string \<Rightarrow> 'p match list option"
where
  "findMatches exec definitions s =
     (case scan_definitions exec s definitions [] of
        None \<Rightarrow> None
      | Some matches \<Rightarrow>
          if matches = [] then Some matches
          else Some (sweep [] (- 1) (sort_m matches)))"

text \<open>\<open>this.definitionMap = new Map(); this.definitions.forEach(def =>
  this.definitionMap.set(def.id, def))\<close>: a later \<open>set\<close> of a key replaces the earlier one.\<close>

definition definitionMap :: "'p definition_rec list \<Rightarrow> (string \<rightharpoonup> 'p definition_rec)" where
  "definitionMap definitions = foldl (\<lambda>m d. m(def_id d \<mapsto> d)) Map.empty definitions"

section \<open>The trigger patterns of the default definitions\<close>

text \<open>
  The default triggers are regular-expression literals built from five constructs:
  literal characters (also escaped ones such as \<open>\(\<close>), the word boundary \<open>\b\<close>, a
  greedy star over a character class (\<open>\s*\<close> and \<open>[^\]]*\<close>), and the lookaheads
  \<open>(?=...)\<close> and \<open>(?!...)\<close>. A pattern is the sequence of its constructs.
\<close>

datatype cset = Space | NoneOf string

datatype rx = Lit string | WordB | Star cset | Look bool "rx list"

fun in_cset :: "cset \<Rightarrow> char \<Rightarrow> bool" where
  "in_cset Space c = is_space c"
| "in_cset (NoneOf cs) c = (c \<notin> set cs)"

text \<open>Word characters \<open>\w\<close> are \<open>[A-Za-z0-9_]\<close>; \<open>\b\<close> holds at an offset where exactly one
  of the characters before and after it is a word character (none outside the string).\<close>

definition is_word :: "char \<Rightarrow> bool" where
  "is_word c =
     (let n = (of_char c :: nat)
      in (65 \<le> n \<and> n \<le> 90) \<or> (97 \<le> n \<and> n \<le> 122) \<or> (48 \<le> n \<and> n \<le> 57) \<or> n = 95)"

definition word_boundary :: "string \<Rightarrow> nat \<Rightarrow> bool" where
  "word_boundary s pos =
     ((0 < pos \<and> pos \<le> length s \<and> is_word (s ! (pos - 1)))
        \<noteq> (pos < length s \<and> is_word (s ! pos)))"

text \<open>
  The backtracking matcher of ECMAScript on these constructs: \<open>rx_match rs s pos\<close> is the
  end offset of the first match of the sequence \<open>rs\<close> that starts at \<open>pos\<close>. A star first
  takes as many characters as the class allows and gives them back one by one
  (\<open>star_back\<close>); a lookahead consumes nothing.
\<close>

fun rx_match :: "rx list \<Rightarrow> string \<Rightarrow> nat \<Rightarrow> nat option"
  and star_back :: "rx list \<Rightarrow> string \<Rightarrow> nat \<Rightarrow> nat \<Rightarrow> nat option"
where
  "rx_match [] s pos = Some pos"
| "rx_match (Lit l # rs) s pos =
     (if take (length l) (drop pos s) = l then rx_match rs s (pos + length l) else None)"
| "rx_match (WordB # rs) s pos =
     (if word_boundary s pos then rx_match rs s pos else None)"
| "rx_match (Star cs # rs) s pos =
     star_back rs s pos (length (takeWhile (in_cset cs) (drop pos s)))"
| "rx_match (Look positive as # rs) s pos =
     (if (rx_match as s pos \<noteq> None) = positive then rx_match rs s pos else None)"
| "star_back rs s pos k =
     (case rx_match rs s (pos + k) of
        Some e \<Rightarrow> Some e
      | None \<Rightarrow> (case k of 0 \<Rightarrow> None | Suc j \<Rightarrow> star_back rs s pos j))"

text \<open>\<open>exec\<close> on a global pattern: the first offset from \<open>lastIndex\<close> on at which the
  pattern matches, with the matched substring; \<open>null\<close> when there is none (also when
  \<open>lastIndex\<close> is past the end of the string).\<close>

fun rx_search :: "rx list \<Rightarrow> string \<Rightarrow> nat list \<Rightarrow> (nat \<times> string) option" where
  "rx_search p s [] = None"
| "rx_search p s (i # rest) =
     (case rx_match p s i of
        Some e \<Rightarrow> Some (i, take (e - i) (drop i s))
      | None \<Rightarrow> rx_search p s rest)"

definition rx_exec :: "rx list engine" where
  "rx_exec p s lastIndex = rx_search p s [lastIndex..<Suc (length s)]"

subsection \<open>\<open>DEFAULT_TOOLTIP_DEFINITIONS\<close>\<close>

definition tip_decltype_body :: string where
  \<open>tip_decltype_body =
         ''<p>Deduce the type of an expression at compile time without evaluating it.</p><pre><code class="language-cpp">int value = 42;\<newline>''
       @ ''auto lambda = [&value]() { return value; };\<newline>''
       @ ''decltype(lambda()) copy = value; // copy is int</code></pre>''\<close>

definition tip_decltype :: "rx list definition_rec" where
  "tip_decltype =
     \<lparr> def_id = ''decltype'',
       triggers =
       [[WordB, Lit ''decltype'', WordB]],
       title = ''decltype'',
       body = tip_decltype_body \<rparr>"

definition tip_std_move_body :: string where
  \<open>tip_std_move_body =
         ''<p>Cast an object to an rvalue so move-aware APIs can transfer its resources.</p><pre><code class="language-cpp">std::string source = "abc";\<newline>''
       @ ''std::string dest = std::move(source); // source becomes empty</code></pre>''\<close>

definition tip_std_move :: "rx list definition_rec" where
  "tip_std_move =
     \<lparr> def_id = ''std-move'',
       triggers =
       [[Lit ''std::move''],
        [WordB, Lit ''move'', WordB, Look True [Star Space, Lit ''('']]],
       title = ''std::move'',
       body = tip_std_move_body \<rparr>"

definition tip_std_forward_body :: string where
  \<open>tip_std_forward_body =
         ''<p>Preserve the value category of a forwarded template argument inside forwarding functions.</p><pre><code class="language-cpp">template <typename T>\<newline>''
       @ ''void wrapper(T&& arg) {\<newline>''
       @ ''    callee(std::forward<T>(arg));\<newline>''
       @ ''}</code></pre>''\<close>

definition tip_std_forward :: "rx list definition_rec" where
  "tip_std_forward =
     \<lparr> def_id = ''std-forward'',
       triggers =
       [[Lit ''std::forward'']],
       title = ''std::forward'',
       body = tip_std_forward_body \<rparr>"

definition tip_unique_ptr_body :: string where
  \<open>tip_unique_ptr_body =
         ''<p>Exclusive-owning smart pointer that deletes its resource when leaving scope.</p><pre><code class="language-cpp">auto ptr = std::make_unique<int>(42);\<newline>''
       @ ''if (ptr) { /* use *ptr */ }</code></pre>''\<close>

definition tip_unique_ptr :: "rx list definition_rec" where
  "tip_unique_ptr =
     \<lparr> def_id = ''unique-ptr'',
       triggers =
       [[Lit ''std::unique_ptr''],
        [WordB, Lit ''unique_ptr'', WordB]],
       title = ''std::unique_ptr'',
       body = tip_unique_ptr_body \<rparr>"

definition tip_shared_ptr_body :: string where
  \<open>tip_shared_ptr_body =
         ''<p>Reference-counted smart pointer that frees the resource when the last owner dies.</p><pre><code class="language-cpp">auto shared = std::make_shared<std::vector<int>>(5, 1);\<newline>''
       @ ''auto copy = shared; // increments use-count</code></pre>''\<close>

definition tip_shared_ptr :: "rx list definition_rec" where
  "tip_shared_ptr =
     \<lparr> def_id = ''shared-ptr'',
       triggers =
       [[Lit ''std::shared_ptr''],
        [WordB, Lit ''shared_ptr'', WordB]],
       title = ''std::shared_ptr'',
       body = tip_shared_ptr_body \<rparr>"

definition tip_weak_ptr_body :: string where
  \<open>tip_weak_ptr_body =
         ''<p>Non-owning weak reference that lets you observe a std::shared_ptr without extending its lifetime.</p><pre><code class="language-cpp">std::weak_ptr<int> weak = shared;\<newline>''
       @ ''if (auto locked = weak.lock()) { /* safe access */ }</code></pre>''\<close>

definition tip_weak_ptr :: "rx list definition_rec" where
  "tip_weak_ptr =
     \<lparr> def_id = ''weak-ptr'',
       triggers =
       [[Lit ''std::weak_ptr''],
        [WordB, Lit ''weak_ptr'', WordB]],
       title = ''std::weak_ptr'',
       body = tip_weak_ptr_body \<rparr>"

definition tip_make_unique_body :: string where
  \<open>tip_make_unique_body =
         ''<p>Factory helper that allocates an object and returns a std::unique_ptr with exception safety.</p><pre><code class="language-cpp">auto logger = std::make_unique<Logger>("app.log");</code></pre>''\<close>

definition tip_make_unique :: "rx list definition_rec" where
  "tip_make_unique =
     \<lparr> def_id = ''make-unique'',
       triggers =
       [[Lit ''std::make_unique'']],
       title = ''std::make_unique'',
       body = tip_make_unique_body \<rparr>"

definition tip_make_shared_body :: string where
  \<open>tip_make_shared_body =
         ''<p>Allocate control block and object in one step, returning a std::shared_ptr.</p><pre><code class="language-cpp">auto config = std::make_shared<Config>("prod.json");</code></pre>''\<close>

definition tip_make_shared :: "rx list definition_rec" where
  "tip_make_shared =
     \<lparr> def_id = ''make-shared'',
       triggers =
       [[Lit ''std::make_shared'']],
       title = ''std::make_shared'',
       body = tip_make_shared_body \<rparr>"

definition tip_enable_shared_from_this_body :: string where
  \<open>tip_enable_shared_from_this_body =
         ''<p>Base class that lets an object create shared_ptr instances to itself safely.</p><pre><code class="language-cpp">struct Session : std::enable_shared_from_this<Session> {\<newline>''
       @ ''    void start() { queue(shared_from_this()); }\<newline>''
       @ ''};</code></pre>''\<close>

definition tip_enable_shared_from_this :: "rx list definition_rec" where
  "tip_enable_shared_from_this =
     \<lparr> def_id = ''enable-shared-from-this'',
       triggers =
       [[Lit ''std::enable_shared_from_this'']],
       title = ''std::enable_shared_from_this'',
       body = tip_enable_shared_from_this_body \<rparr>"

definition tip_lock_guard_body :: string where
  \<open>tip_lock_guard_body =
         ''<p>RAII wrapper that acquires a mutex in its constructor and releases it in the destructor.</p><pre><code class="language-cpp">std::mutex m;\<newline>''
       @ ''{\<newline>''
       @ ''    std::lock_guard<std::mutex> guard(m);\<newline>''
       @ ''    // protected section\<newline>''
       @ ''}</code></pre>''\<close>

definition tip_lock_guard :: "rx list definition_rec" where
  "tip_lock_guard =
     \<lparr> def_id = ''lock-guard'',
       triggers =
       [[Lit ''std::lock_guard'']],
       title = ''std::lock_guard'',
       body = tip_lock_guard_body \<rparr>"

definition tip_scoped_lock_body :: string where
  \<open>tip_scoped_lock_body =
         ''<p>RAII lock that can take multiple mutexes and avoids deadlock by locking them atomically.</p><pre><code class="language-cpp">std::scoped_lock guard(mutexA, mutexB);</code></pre>''\<close>

definition tip_scoped_lock :: "rx list definition_rec" where
  "tip_scoped_lock =
     \<lparr> def_id = ''scoped-lock'',
       triggers =
       [[Lit ''std::scoped_lock'']],
       title = ''std::scoped_lock'',
       body = tip_scoped_lock_body \<rparr>"

definition tip_unique_lock_body :: string where
  \<open>tip_unique_lock_body =
         ''<p>Flexible mutex guard that supports deferred locking, try_lock, and manual unlock/lock.</p><pre><code class="language-cpp">std::unique_lock<std::mutex> lock(m, std::defer_lock);\<newline>''
       @ ''if (lock.try_lock()) { /* ... */ }</code></pre>''\<close>

definition tip_unique_lock :: "rx list definition_rec" where
  "tip_unique_lock =
     \<lparr> def_id = ''unique-lock'',
       triggers =
       [[Lit ''std::unique_lock'']],
       title = ''std::unique_lock'',
       body = tip_unique_lock_body \<rparr>"

definition tip_async_body :: string where
  \<open>tip_async_body =
         ''<p>Launch a task asynchronously and get a std::future representing its eventual result.</p><pre><code class="language-cpp">auto fut = std::async(std::launch::async, compute);\<newline>''
       @ ''auto value = fut.get();</code></pre>''\<close>

definition tip_async :: "rx list definition_rec" where
  "tip_async =
     \<lparr> def_id = ''async'',
       triggers =
       [[Lit ''std::async'']],
       title = ''std::async'',
       body = tip_async_body \<rparr>"

definition tip_future_body :: string where
  \<open>tip_future_body =
         ''<p>Read-only handle that retrieves the result of an asynchronous computation.</p><pre><code class="language-cpp">std::future<int> fut = promise.get_future();\<newline>''
       @ ''int result = fut.get();</code></pre>''\<close>

definition tip_future :: "rx list definition_rec" where
  "tip_future =
     \<lparr> def_id = ''future'',
       triggers =
       [[Lit ''std::future'']],
       title = ''std::future'',
       body = tip_future_body \<rparr>"

definition tip_promise_body :: string where
  \<open>tip_promise_body =
         ''<p>Producer side of a future; set a value or exception that a std::future will observe.</p><pre><code class="language-cpp">std::promise<int> promise;\<newline>''
       @ ''auto fut = promise.get_future();\<newline>''
       @ ''promise.set_value(42);</code></pre>''\<close>

definition tip_promise :: "rx list definition_rec" where
  "tip_promise =
     \<lparr> def_id = ''promise'',
       triggers =
       [[Lit ''std::promise'']],
       title = ''std::promise'',
       body = tip_promise_body \<rparr>"

definition tip_condition_variable_body :: string where
  \<open>tip_condition_variable_body =
         ''<p>Synchronization primitive used to block threads until notified by another thread.</p><pre><code class="language-cpp">std::condition_variable cv;\<newline>''
       @ ''cv.wait(lock, [&] { return ready; });</code></pre>''\<close>

definition tip_condition_variable :: "rx list definition_rec" where
  "tip_condition_variable =
     \<lparr> def_id = ''condition-variable'',
       triggers =
       [[Lit ''std::condition_variable'']],
       title = ''std::condition_variable'',
       body = tip_condition_variable_body \<rparr>"

definition tip_atomic_body :: string where
  \<open>tip_atomic_body =
         ''<p>Lock-free (when possible) wrapper that provides atomic operations on the underlying type.</p><pre><code class="language-cpp">std::atomic<int> counter{0};\<newline>''
       @ ''++counter;</code></pre>''\<close>

definition tip_atomic :: "rx list definition_rec" where
  "tip_atomic =
     \<lparr> def_id = ''atomic'',
       triggers =
       [[Lit ''std::atomic'']],
       title = ''std::atomic'',
       body = tip_atomic_body \<rparr>"

definition tip_optional_body :: string where
  \<open>tip_optional_body =
         ''<p>Type-safe wrapper that may or may not contain a value.</p><pre><code class="language-cpp">std::optional<std::string> name;\<newline>''
       @ ''name = "Ada";\<newline>''
       @ ''if (name) { use(*name); }</code></pre>''\<close>

definition tip_optional :: "rx list definition_rec" where
  "tip_optional =
     \<lparr> def_id = ''optional'',
       triggers =
       [[Lit ''std::optional''],
        [WordB, Lit ''optional'', WordB]],
       title = ''std::optional'',
       body = tip_optional_body \<rparr>"

definition tip_variant_body :: string where
  \<open>tip_variant_body =
         ''<p>Type-safe union that can hold one of several alternative types at a time.</p><pre><code class="language-cpp">std::variant<int, std::string> v = 42;\<newline>''
       @ ''v = std::string{"text"};</code></pre>''\<close>

definition tip_variant :: "rx list definition_rec" where
  "tip_variant =
     \<lparr> def_id = ''variant'',
       triggers =
       [[Lit ''std::variant''],
        [WordB, Lit ''variant'', WordB]],
       title = ''std::variant'',
       body = tip_variant_body \<rparr>"

definition tip_visit_body :: string where
  \<open>tip_visit_body =
         ''<p>Apply a visitor callable to the active alternative stored inside a std::variant.</p><pre><code class="language-cpp">std::visit([](const auto& value) { std::cout << value; }, v);</code></pre>''\<close>

definition tip_visit :: "rx list definition_rec" where
  "tip_visit =
     \<lparr> def_id = ''visit'',
       triggers =
       [[Lit ''std::visit''],
        [WordB, Lit ''visit'', WordB, Star Space, Lit ''('']],
       title = ''std::visit'',
       body = tip_visit_body \<rparr>"

definition tip_tie_body :: string where
  \<open>tip_tie_body =
         ''<p>Create a tuple of lvalue references, often used to unpack multiple return values.</p><pre><code class="language-cpp">int x, y;\<newline>''
       @ ''std::tie(x, y) = std::pair{1, 2};</code></pre>''\<close>

definition tip_tie :: "rx list definition_rec" where
  "tip_tie =
     \<lparr> def_id = ''tie'',
       triggers =
       [[Lit ''std::tie''],
        [WordB, Lit ''tie'', WordB, Star Space, Lit ''('']],
       title = ''std::tie'',
       body = tip_tie_body \<rparr>"

definition tip_emplace_body :: string where
  \<open>tip_emplace_body =
         ''<p>Construct elements in-place inside a container, forwarding constructor arguments.</p><pre><code class="language-cpp">std::vector<std::string> names;\<newline>''
       @ ''names.emplace_back("Ada", 3);</code></pre>''\<close>

definition tip_emplace :: "rx list definition_rec" where
  "tip_emplace =
     \<lparr> def_id = ''emplace'',
       triggers =
       [[WordB, Lit ''emplace_back'', WordB],
        [WordB, Lit ''emplace'', WordB]],
       title = ''emplace*'',
       body = tip_emplace_body \<rparr>"

definition tip_decltype_later_body :: string where
  \<open>tip_decltype_later_body =
         ''<p>Compile-time type deduction operator that returns the type of an expression without evaluating it.</p><pre><code class="language-cpp">int x = 42;\<newline>''
       @ ''decltype(x) y = 10; // y is int\<newline>''
       @ ''\<newline>''
       @ ''auto func() -> int { return 5; }\<newline>''
       @ ''decltype(func()) z = 3; // z is int</code></pre>''\<close>

definition tip_decltype_later :: "rx list definition_rec" where
  "tip_decltype_later =
     \<lparr> def_id = ''decltype'',
       triggers =
       [[WordB, Lit ''decltype'', WordB]],
       title = ''decltype'',
       body = tip_decltype_later_body \<rparr>"

definition tip_raii_body :: string where
  \<open>tip_raii_body =
         ''<p>Resource Acquisition Is Initialization - programming idiom where resource management is tied to object lifetime.</p><pre><code class="language-cpp">class FileWrapper {\<newline>''
       @ ''    FILE* file;\<newline>''
       @ ''public:\<newline>''
       @ ''    FileWrapper(const char* name) : file(fopen(name, "r")) {}\<newline>''
       @ ''    ~FileWrapper() { if(file) fclose(file); }\<newline>''
       @ ''};</code></pre>''\<close>

definition tip_raii :: "rx list definition_rec" where
  "tip_raii =
     \<lparr> def_id = ''raii'',
       triggers =
       [[WordB, Lit ''RAII'', WordB]],
       title = ''RAII'',
       body = tip_raii_body \<rparr>"

definition tip_alignas_body :: string where
  \<open>tip_alignas_body =
         ''<p>Specifies the alignment requirement of a type or object, useful for SIMD operations and cache optimization.</p><pre><code class="language-cpp">alignas(16) float data[4]; // 16-byte aligned for SIMD\<newline>''
       @ ''alignas(64) struct CacheAligned {\<newline>''
       @ ''    int values[16];\<newline>''
       @ ''};</code></pre>''\<close>

definition tip_alignas :: "rx list definition_rec" where
  "tip_alignas =
     \<lparr> def_id = ''alignas'',
       triggers =
       [[WordB, Lit ''alignas'', WordB]],
       title = ''alignas'',
       body = tip_alignas_body \<rparr>"

definition tip_constexpr_body :: string where
  \<open>tip_constexpr_body =
         ''<p>Specifies that a function or variable can be evaluated at compile time.</p><pre><code class="language-cpp">constexpr int factorial(int n) {\<newline>''
       @ ''    return n <= 1 ? 1 : n * factorial(n - 1);\<newline>''
       @ ''}\<newline>''
       @ ''\<newline>''
       @ ''constexpr int result = factorial(5); // Computed at compile time</code></pre>''\<close>

definition tip_constexpr :: "rx list definition_rec" where
  "tip_constexpr =
     \<lparr> def_id = ''constexpr'',
       triggers =
       [[WordB, Lit ''constexpr'', WordB]],
       title = ''constexpr'',
       body = tip_constexpr_body \<rparr>"

definition tip_noexcept_body :: string where
  \<open>tip_noexcept_body =
         ''<p>Specifies that a function does not throw exceptions, enabling optimizations.</p><pre><code class="language-cpp">void safe_function() noexcept {\<newline>''
       @ ''    // Guaranteed not to throw\<newline>''
       @ ''}\<newline>''
       @ ''\<newline>''
       @ ''// Conditional noexcept\<newline>''
       @ ''template<typename T>\<newline>''
       @ ''void conditional(T&& t) noexcept(noexcept(t.process()));</code></pre>''\<close>

definition tip_noexcept :: "rx list definition_rec" where
  "tip_noexcept =
     \<lparr> def_id = ''noexcept'',
       triggers =
       [[WordB, Lit ''noexcept'', WordB]],
       title = ''noexcept'',
       body = tip_noexcept_body \<rparr>"

definition tip_auto_keyword_body :: string where
  \<open>tip_auto_keyword_body =
         ''<p>Automatic type deduction that lets the compiler determine the type of a variable from its initializer.</p><pre><code class="language-cpp">auto x = 42;        // int\<newline>''
       @ ''auto y = 3.14;      // double\<newline>''
       @ ''auto z = "hello";   // const char*\<newline>''
       @ ''auto ptr = std::make_unique<int>(10);</code></pre>''\<close>

definition tip_auto_keyword :: "rx list definition_rec" where
  "tip_auto_keyword =
     \<lparr> def_id = ''auto-keyword'',
       triggers =
       [[WordB, Lit ''auto'', WordB, Look False [Star Space, Lit ''='']]],
       title = ''auto'',
       body = tip_auto_keyword_body \<rparr>"

definition tip_lambda_body :: string where
  \<open>tip_lambda_body =
         ''<p>Anonymous function objects that can capture variables from their scope.</p><pre><code class="language-cpp">auto lambda = [](int x) { return x * 2; };\<newline>''
       @ ''int result = lambda(5); // 10\<newline>''
       @ ''\<newline>''
       @ ''// With capture\<newline>''
       @ ''int multiplier = 3;\<newline>''
       @ ''auto capture_lambda = [multiplier](int x) {\<newline>''
       @ ''    return x * multiplier;\<newline>''
       @ ''};</code></pre>''\<close>

definition tip_lambda :: "rx list definition_rec" where
  "tip_lambda =
     \<lparr> def_id = ''lambda'',
       triggers =
       [[WordB, Lit ''lambda'', WordB],
        [Lit ''['', Star Space, Star (NoneOf '']''), Star Space, Lit '']'']],
       title = ''Lambda Expression'',
       body = tip_lambda_body \<rparr>"

definition tip_sfinae_body :: string where
  \<open>tip_sfinae_body =
         ''<p>Substitution Failure Is Not An Error - principle that allows template overload resolution to work properly.</p><pre><code class="language-cpp">// If substitution fails for a template,\<newline>''
       @ ''// it's not an error, just removes it from consideration\<newline>''
       @ ''template<typename T>\<newline>''
       @ ''auto func(T t) -> decltype(t.size()) {\<newline>''
       @ ''    return t.size(); // Only works if T has size() method\<newline>''
       @ ''}</code></pre>''\<close>

definition tip_sfinae :: "rx list definition_rec" where
  "tip_sfinae =
     \<lparr> def_id = ''sfinae'',
       triggers =
       [[WordB, Lit ''SFINAE'', WordB]],
       title = ''SFINAE'',
       body = tip_sfinae_body \<rparr>"

definition tip_enable_if_body :: string where
  \<open>tip_enable_if_body =
         ''<p>SFINAE utility for conditionally enabling template instantiations based on type traits.</p><pre><code class="language-cpp">template<typename T>\<newline>''
       @ ''typename std::enable_if<std::is_integral<T>::value, T>::type\<newline>''
       @ ''process(T value) {\<newline>''
       @ ''    return value * 2; // Only for integral types\<newline>''
       @ ''}</code></pre>''\<close>

definition tip_enable_if :: "rx list definition_rec" where
  "tip_enable_if =
     \<lparr> def_id = ''enable-if'',
       triggers =
       [[Lit ''std::enable_if''],
        [WordB, Lit ''enable_if'', WordB]],
       title = ''std::enable_if'',
       body = tip_enable_if_body \<rparr>"

definition tip_perfect_forwarding_body :: string where
  \<open>tip_perfect_forwarding_body =
         ''<p>Technique to preserve the value category (lvalue/rvalue) of arguments when forwarding them to another function.</p><pre><code class="language-cpp">template<typename T>\<newline>''
       @ ''void wrapper(T&& arg) {\<newline>''
       @ ''    // Forward arg preserving its value category\<newline>''
       @ ''    target_function(std::forward<T>(arg));\<newline>''
       @ ''}</code></pre>''\<close>

definition tip_perfect_forwarding :: "rx list definition_rec" where
  "tip_perfect_forwarding =
     \<lparr> def_id = ''perfect-forwarding'',
       triggers =
       [[Lit ''perfect forwarding''],
        [Lit ''universal reference'']],
       title = ''Perfect Forwarding'',
       body = tip_perfect_forwarding_body \<rparr>"

definition tip_move_semantics_body :: string where
  \<open>tip_move_semantics_body =
         ''<p>C++11 feature that allows efficient transfer of resources from one object to another, avoiding unnecessary copies.</p><pre><code class="language-cpp">std::string source = "Hello";\<newline>''
       @ ''std::string dest = std::move(source);\<newline>''
       @ ''// source is now in valid but unspecified state\<newline>''
       @ ''// dest contains "Hello" without copying</code></pre>''\<close>

definition tip_move_semantics :: "rx list definition_rec" where
  "tip_move_semantics =
     \<lparr> def_id = ''move-semantics'',
       triggers =
       [[Lit ''move semantics'']],
       title = ''Move Semantics'',
       body = tip_move_semantics_body \<rparr>"

definition tip_template_specialization_body :: string where
  \<open>tip_template_specialization_body =
         ''<p>Mechanism to provide specific implementations of a template for particular types.</p><pre><code class="language-cpp">template<typename T>\<newline>''
       @ ''struct TypeName { static constexpr const char* value = "unknown"; };\<newline>''
       @ ''\<newline>''
       @ ''// Specialization for int\<newline>''
       @ ''template<>\<newline>''
       @ ''struct TypeName<int> { static constexpr const char* value = "integer"; };</code></pre>''\<close>

definition tip_template_specialization :: "rx list definition_rec" where
  "tip_template_specialization =
     \<lparr> def_id = ''template-specialization'',
       triggers =
       [[Lit ''template specialization'']],
       title = ''Template Specialization'',
       body = tip_template_specialization_body \<rparr>"

definition DEFAULT_TOOLTIP_DEFINITIONS :: "rx list definition_rec list" where
  "DEFAULT_TOOLTIP_DEFINITIONS =
     [tip_decltype, tip_std_move, tip_std_forward, tip_unique_ptr, tip_shared_ptr, tip_weak_ptr,
      tip_make_unique, tip_make_shared, tip_enable_shared_from_this, tip_lock_guard, tip_scoped_lock, tip_unique_lock,
      tip_async, tip_future, tip_promise, tip_condition_variable, tip_atomic, tip_optional,
      tip_variant, tip_visit, tip_tie, tip_emplace, tip_decltype_later, tip_raii,
      tip_alignas, tip_constexpr, tip_noexcept, tip_auto_keyword, tip_lambda, tip_sfinae,
      tip_enable_if, tip_perfect_forwarding, tip_move_semantics, tip_template_specialization]"


section \<open>The term annotator (src/js/tooltip-manager.js)\<close>

text \<open>
  The part of the DOM the annotator reads and writes: a text node with its \<open>nodeValue\<close>,
  or an element with its \<open>tagName\<close>, its \<open>classList\<close>, its attributes and its
  \<open>childNodes\<close>. What the annotator asks about the ancestors of a node (\<open>closest\<close>,
  \<open>tagName\<close>, \<open>classList\<close>) is answered by the list of its element ancestors, the parent
  element first and the document's root element last.
\<close>

datatype node =
  TextNode string
| Element string "string list" "(string \<times> string) list" "node list"

type_synonym ancestors = "(string \<times> string list) list"

text \<open>\<open>parentElement.closest('.' + cls)\<close>: the nearest of the parent element and its
  ancestors that carries the class, or \<open>null\<close>.\<close>

definition closest :: "string \<Rightarrow> ancestors \<Rightarrow> (string \<times> string list) option" where
  "closest cls path = find (\<lambda>e. cls \<in> set (snd e)) path"

text \<open>\<open>shouldProcessNode\<close>, the filter of the tree walker; \<open>True\<close> is \<open>FILTER_ACCEPT\<close> and
  \<open>False\<close> is \<open>FILTER_REJECT\<close>. The walker hands it text nodes below the root, so the
  node has a parent; it has no parent element when the ancestor list is empty.\<close>

definition shouldProcessNode :: "ancestors \<Rightarrow> string \<Rightarrow> bool" where
  "shouldProcessNode path nodeValue =
     (if nodeValue = [] \<or> trim nodeValue = [] then False
      else case path of
        [] \<Rightarrow> False
      | parentElement # _ \<Rightarrow>
          if closest ''tooltip-term'' path \<noteq> None \<or> closest ''tooltip-popover'' path \<noteq> None
          then False
          else if fst parentElement = ''SCRIPT'' \<or> fst parentElement = ''STYLE'' then False
          else True)"

text \<open>\<open>isCodeContext(originalParent)\<close>: walks up from the parent; a marker ends the walk
  with \<open>false\<close>, a \<open>CODE\<close> or \<open>PRE\<close> element with \<open>true\<close>.\<close>

fun isCodeContext :: "ancestors \<Rightarrow> bool" where
  "isCodeContext [] = False"
| "isCodeContext ((tagName, classList) # up) =
     (if ''tooltip-term'' \<in> set classList then False
      else if tagName = ''CODE'' then True
      else if tagName = ''PRE'' then True
      else isCodeContext up)"

text \<open>\<open>createTermNode\<close>: a \<open>span\<close> of class \<open>tooltip-term\<close> with \<open>data-tooltip-id\<close>, the
  matched text as its \<open>textContent\<close> (no child when that is empty) and \<open>tabIndex = 0\<close>.\<close>

definition createTermNode :: "'p match \<Rightarrow> ancestors \<Rightarrow> node" where
  "createTermNode m originalParent =
     Element ''SPAN''
       (if isCodeContext originalParent then [''tooltip-term'', ''tooltip-term--code'']
        else [''tooltip-term''])
       [(''data-tooltip-id'', definitionId m), (''tabindex'', ''0'')]
       (if text_m m = [] then [] else [TextNode (text_m m)])"

text \<open>The body of \<open>matches.forEach\<close> in \<open>processTextNode\<close>, on the pair of the fragment's
  children so far and \<open>lastIndex\<close>.\<close>

definition append_match ::
  "string \<Rightarrow> ancestors \<Rightarrow> node list \<times> int \<Rightarrow> 'p match \<Rightarrow> node list \<times> int"
where
  "append_match s originalParent acc m =
     (let fragment = fst acc; lastIndex = snd acc;
          fragment' = (if start m > lastIndex
                       then fragment @ [TextNode (slice s lastIndex (start m))]
                       else fragment)
      in (fragment' @ [createTermNode m originalParent], end_m m))"

text \<open>\<open>processTextNode\<close>: the nodes that take the place of the text node (the node itself
  when nothing matches).\<close>

definition processTextNode ::
  "'p engine \<Rightarrow> 'p definition_rec list \<Rightarrow> ancestors \<Rightarrow> string \<Rightarrow> node list option"
where
  "processTextNode exec definitions path s =
     (if s = [] then Some [TextNode s]
      else case findMatches exec definitions s of
        None \<Rightarrow> None
      | Some matches \<Rightarrow>
          if matches = [] then Some [TextNode s]
          else
            let acc = foldl (append_match s path) ([], 0) matches;
                fragment = fst acc; lastIndex = snd acc
            in Some (if lastIndex < int (length s)
                     then fragment @ [TextNode (slice_from s lastIndex)]
                     else fragment))"

text \<open>
  \<open>decorate(root)\<close>: the walker collects every text node below the root that the filter
  accepts, then each is processed. Elements are not shown to the filter and are always
  descended into. \<open>decorate_node\<close> gives the nodes that replace a node, \<open>decorate_children\<close>
  the new child list; \<open>path\<close> lists the element ancestors of the node at hand.
\<close>

fun decorate_node ::
    "'p engine \<Rightarrow> 'p definition_rec list \<Rightarrow> ancestors \<Rightarrow> node \<Rightarrow> node list option"
  and decorate_children ::
    "'p engine \<Rightarrow> 'p definition_rec list \<Rightarrow> ancestors \<Rightarrow> node list \<Rightarrow> node list option"
where
  "decorate_node exec definitions path (TextNode s) =
     (if shouldProcessNode path s then processTextNode exec definitions path s
      else Some [TextNode s])"
| "decorate_node exec definitions path (Element tagName classList attrs childNodes) =
     (case decorate_children exec definitions ((tagName, classList) # path) childNodes of
        None \<Rightarrow> None
      | Some childNodes' \<Rightarrow> Some [Element tagName classList attrs childNodes'])"
| "decorate_children exec definitions path [] = Some []"
| "decorate_children exec definitions path (child # rest) =
     (case decorate_node exec definitions path child of
        None \<Rightarrow> None
      | Some new \<Rightarrow>
          (case decorate_children exec definitions path rest of
             None \<Rightarrow> None
           | Some rest' \<Rightarrow> Some (new @ rest')))"

text \<open>The root itself is never handed to the filter: a root that is a text node is left
  as it is. \<open>path\<close> lists the element ancestors of the root.\<close>

definition decorate ::
  "'p engine \<Rightarrow> 'p definition_rec list \<Rightarrow> ancestors \<Rightarrow> node \<Rightarrow> node option"
where
  "decorate exec definitions path root =
     (case root of
        TextNode s \<Rightarrow> Some root
      | Element tagName classList attrs childNodes \<Rightarrow>
          (case decorate_children exec definitions ((tagName, classList) # path) childNodes of
             None \<Rightarrow> None
           | Some childNodes' \<Rightarrow> Some (Element tagName classList attrs childNodes')))"

text \<open>Observations on a tree. \<open>textContent\<close> is the DOM property; \<open>protected_subtrees\<close>
  lists, in document order, the outermost subtrees whose root is a marker or the popover;
  \<open>nested_markers inside n\<close> counts the markers of \<open>n\<close> that lie inside a marker, where
  \<open>inside\<close> says whether \<open>n\<close> itself does.\<close>

fun textContent :: "node \<Rightarrow> string" where
  "textContent (TextNode s) = s"
| "textContent (Element tagName classList attrs childNodes) = concat (map textContent childNodes)"

definition is_marker :: "string list \<Rightarrow> bool" where
  "is_marker classList = (''tooltip-term'' \<in> set classList)"

definition is_popover :: "string list \<Rightarrow> bool" where
  "is_popover classList = (''tooltip-popover'' \<in> set classList)"

fun protected_subtrees :: "node \<Rightarrow> node list" where
  "protected_subtrees (TextNode s) = []"
| "protected_subtrees (Element tagName classList attrs childNodes) =
     (if is_marker classList \<or> is_popover classList
      then [Element tagName classList attrs childNodes]
      else concat (map protected_subtrees childNodes))"

fun nested_markers :: "bool \<Rightarrow> node \<Rightarrow> nat" where
  "nested_markers inside (TextNode s) = 0"
| "nested_markers inside (Element tagName classList attrs childNodes) =
     (if is_marker classList \<and> inside then 1 else 0)
       + sum_list (map (nested_markers (inside \<or> is_marker classList)) childNodes)"


section \<open>The content loader (src/unnamed/part_002, with the configuration of src/unnamed/part_001)\<close>

subsection \<open>Configuration\<close>

record tab_config =
  tab_id :: string
  tab_title :: string
  description :: string

text \<open>The fields of \<open>APP_CONFIG\<close> the loader reads: \<open>tabs\<close> and the settings under
  \<open>content\<close>. Times are in milliseconds.\<close>

record app_config =
  tabs :: "tab_config list"
  basePath :: string
  fileExtension :: string
  cacheTimeout :: int
  retryAttempts :: nat
  retryDelay :: int

definition APP_CONFIG :: app_config where
  "APP_CONFIG =
     \<lparr> tabs =
       [\<lparr> tab_id = ''string'', tab_title = ''std::string'', description = ''String manipulation and utilities'' \<rparr>,
        \<lparr> tab_id = ''stringstream'', tab_title = ''std::stringstream'', description = ''String stream operations'' \<rparr>,
        \<lparr> tab_id = ''vector'', tab_title = ''std::vector'', description = ''Dynamic arrays'' \<rparr>,
        \<lparr> tab_id = ''map'', tab_title = ''std::map'', description = ''Ordered key-value pairs'' \<rparr>,
        \<lparr> tab_id = ''unordered_map'', tab_title = ''std::unordered_map'', description = ''Hash-based key-value pairs'' \<rparr>,
        \<lparr> tab_id = ''set'', tab_title = ''std::set'', description = ''Ordered unique elements'' \<rparr>,
        \<lparr> tab_id = ''unordered_set'', tab_title = ''std::unordered_set'', description = ''Hash-based unique elements'' \<rparr>,
        \<lparr> tab_id = ''priority_queue'', tab_title = ''std::priority_queue'', description = ''Heap-based priority queue'' \<rparr>,
        \<lparr> tab_id = ''list'', tab_title = ''std::list'', description = ''Doubly-linked list'' \<rparr>,
        \<lparr> tab_id = ''queue'', tab_title = ''std::queue'', description = ''FIFO queue'' \<rparr>,
        \<lparr> tab_id = ''stack'', tab_title = ''std::stack'', description = ''LIFO stack'' \<rparr>,
        \<lparr> tab_id = ''deque'', tab_title = ''std::deque'', description = ''Double-ended queue'' \<rparr>,
        \<lparr> tab_id = ''algorithms'', tab_title = ''Algorithms'', description = ''STL algorithms and utilities'' \<rparr>,
        \<lparr> tab_id = ''smart_pointers'', tab_title = ''Smart Pointers'', description = ''Memory management'' \<rparr>,
        \<lparr> tab_id = ''concurrency'', tab_title = ''Concurrency'', description = ''Multithreading primitives'' \<rparr>,
        \<lparr> tab_id = ''coroutines'', tab_title = ''Coroutines'', description = ''C++20 coroutines'' \<rparr>,
        \<lparr> tab_id = ''oop'', tab_title = ''OOP Concepts'', description = ''Object-oriented programming'' \<rparr>,
        \<lparr> tab_id = ''custom_types'', tab_title = ''Custom Types'', description = ''Using custom types in containers'' \<rparr>],
       basePath = ''./content/'',
       fileExtension = ''.html'',
       cacheTimeout = 5 * 60 * 1000,
       retryAttempts = 3,
       retryDelay = 1000 \<rparr>"

subsection \<open>The network and the loader's state\<close>

text \<open>
  What \<open>await fetch(url, ...)\<close> gives: the promise rejects with an error (its message),
  or resolves to a response with \<open>ok\<close>, \<open>status\<close>, \<open>statusText\<close> and the body that
  \<open>response.text()\<close> reads. The network is a parameter: \<open>net n url\<close> answers the request
  for \<open>url\<close> that is made after \<open>n\<close> earlier requests.
\<close>

datatype fetch_result =
  NetworkError string
| Response bool nat string string

type_synonym network = "nat \<Rightarrow> string \<Rightarrow> fetch_result"

record cache_entry =
  content :: string
  timestamp :: int

datatype emitted_event =
  ContentLoaded string string
| ContentError string string

text \<open>
  The three maps of a \<open>ContentLoader\<close>, and what it reads and writes outside itself:
  \<open>clock\<close> is \<open>Date.now()\<close>, \<open>requests\<close> lists the URLs fetched so far, \<open>promises\<close> counts the
  load promises created (a promise is named by its number), \<open>emitted\<close> lists the events
  emitted.
\<close>

record loader_state =
  cache :: "string \<rightharpoonup> cache_entry"
  loadingPromises :: "string \<rightharpoonup> nat"
  retryCount :: "string \<rightharpoonup> nat"
  clock :: int
  requests :: "string list"
  promises :: nat
  emitted :: "emitted_event list"

definition new_loader :: "int \<Rightarrow> loader_state" where
  "new_loader t =
     \<lparr> cache = Map.empty, loadingPromises = Map.empty, retryCount = Map.empty,
       clock = t, requests = [], promises = 0, emitted = [] \<rparr>"

text \<open>What a call of \<open>loadContent\<close> gives its caller: a value, an exception, or a promise
  that is still pending.\<close>

datatype load_outcome =
  Returned string
| Threw string
| Pending nat

subsection \<open>\<open>_fetchContent\<close> and \<open>_getFallbackContent\<close>\<close>

fun digit_char :: "nat \<Rightarrow> char" where
  "digit_char n = char_of (48 + n)"

fun show_nat :: "nat \<Rightarrow> string" where
  "show_nat n = (if n < 10 then [digit_char n] else show_nat (n div 10) @ [digit_char (n mod 10)])"

text \<open>The \<open>try\<close> block of \<open>_fetchContent\<close> once the request is answered: \<open>Inl\<close> is the
  message of the error thrown, \<open>Inr\<close> the content returned.\<close>

definition read_response :: "fetch_result \<Rightarrow> string + string" where
  "read_response r =
     (case r of
        NetworkError message \<Rightarrow> Inl message
      | Response ok status statusText responseText \<Rightarrow>
          if \<not> ok then Inl (''HTTP '' @ show_nat status @ '': '' @ statusText)
          else if trim responseText = [] then Inl ''Empty content received''
          else Inr responseText)"

definition getFallbackContent :: "app_config \<Rightarrow> string \<Rightarrow> string \<Rightarrow> string" where
  \<open>getFallbackContent cfg tabId message =
     (let tabConfig = find (\<lambda>tab. tab_id tab = tabId) (tabs cfg);
          tabTitle = (case tabConfig of Some tab \<Rightarrow> tab_title tab | None \<Rightarrow> tabId)
      in   ''\<newline>''
           @ ''            <div class="content-error">\<newline>''
           @ ''                <div class="text-center py-12">\<newline>''
           @ ''                    <div class="text-6xl text-red-400 mb-4">''
           @ [CHR 0xE2, CHR 0x9A, CHR 0xA0, CHR 0xEF, CHR 0xB8, CHR 0x8F]
           @ ''</div>\<newline>''
           @ ''                    <h2 class="text-2xl font-bold text-red-400 mb-4">Content Unavailable</h2>\<newline>''
           @ ''                    <p class="text-gray-400 mb-6">\<newline>''
           @ ''                        Sorry, we couldn't load the content for <strong>''
           @ tabTitle
           @ ''</strong>.\<newline>''
           @ ''                    </p>\<newline>''
           @ ''                    <div class="text-sm text-gray-500 mb-6">\<newline>''
           @ ''                        Error: ''
           @ message
           @ ''\<newline>''
           @ ''                    </div>\<newline>''
           @ ''                    <button\<newline>''
           @ ''                        onclick="window.contentLoader.loadContent(''
           @ [CHR 0x27]
           @ tabId
           @ [CHR 0x27]
           @ '', false)"\<newline>''
           @ ''                        class="bg-cyan-500 hover:bg-cyan-600 text-white px-6 py-2 rounded-lg transition-colors"\<newline>''
           @ ''                    >\<newline>''
           @ ''                        Try Again\<newline>''
           @ ''                    </button>\<newline>''
           @ ''                </div>\<newline>''
           @ ''            </div>\<newline>''
           @ ''        '')\<close>

definition content_url :: "app_config \<Rightarrow> string \<Rightarrow> string" where
  "content_url cfg tabId = basePath cfg @ tabId @ fileExtension cfg"

text \<open>\<open>this.retryCount.get(tabId) || 0\<close>\<close>

definition retries_of :: "'a loader_state_scheme \<Rightarrow> string \<Rightarrow> nat" where
  "retries_of w tabId = (case retryCount w tabId of None \<Rightarrow> 0 | Some n \<Rightarrow> n)"

text \<open>
  \<open>_fetchContent\<close>, run from its call to the settling of its promise, with nothing else
  running in between. The retry timer moves the clock on by its delay. The promise is
  settled with \<open>Inr c\<close> when it resolves and \<open>Inl message\<close> when it rejects; every
  path of the source resolves it.
\<close>

function fetchContent ::
  "app_config \<Rightarrow> network \<Rightarrow> string \<Rightarrow> 'a loader_state_scheme
     \<Rightarrow> (string + string) \<times> 'a loader_state_scheme"
where
  "fetchContent cfg net tabId w =
     (let url = content_url cfg tabId;
          retries = retries_of w tabId;
          response = net (length (requests w)) url;
          w1 = w\<lparr>requests := requests w @ [url]\<rparr>
      in (case read_response response of
            Inr c \<Rightarrow> (Inr c, w1)
          | Inl message \<Rightarrow>
              if retries < retryAttempts cfg
              then fetchContent cfg net tabId
                     (w1\<lparr>retryCount := (retryCount w1)(tabId \<mapsto> retries + 1),
                         clock := clock w1 + retryDelay cfg * int (retries + 1)\<rparr>)
              else (Inr (getFallbackContent cfg tabId message), w1)))"
  by pat_completeness auto
termination
  by (relation "measure (\<lambda>(cfg, net, tabId, w). retryAttempts cfg - retries_of w tabId)")
     (auto simp: retries_of_def)

declare fetchContent.simps [simp del]

subsection \<open>\<open>loadContent\<close>\<close>

text \<open>The cache check at the head of \<open>loadContent\<close>: the content of the entry when
  \<open>useCache\<close> is set, the key has an entry and the entry is younger than the timeout.\<close>

definition cache_read :: "app_config \<Rightarrow> bool \<Rightarrow> 'a loader_state_scheme \<Rightarrow> string \<Rightarrow> string option" where
  "cache_read cfg useCache w tabId =
     (if useCache then
        (case cache w tabId of
           None \<Rightarrow> None
         | Some cached \<Rightarrow>
             if clock w - timestamp cached < cacheTimeout cfg then Some (content cached)
             else None)
      else None)"

text \<open>The rest of \<open>loadContent\<close> once \<open>await loadPromise\<close> has its result: the \<open>try\<close> body, the
  \<open>catch\<close> handler and the \<open>finally\<close> clause.\<close>

definition after_load ::
  "string \<Rightarrow> string + string \<Rightarrow> 'a loader_state_scheme \<Rightarrow> load_outcome \<times> 'a loader_state_scheme"
where
  "after_load tabId r w =
     (case r of
        Inr c \<Rightarrow>
          (Returned c,
           w\<lparr>cache := (cache w)(tabId \<mapsto> \<lparr> content = c, timestamp = clock w \<rparr>),
             retryCount := (retryCount w)(tabId := None),
             emitted := emitted w @ [ContentLoaded tabId c],
             loadingPromises := (loadingPromises w)(tabId := None)\<rparr>)
      | Inl message \<Rightarrow>
          (Threw message,
           w\<lparr>emitted := emitted w @ [ContentError tabId message],
             loadingPromises := (loadingPromises w)(tabId := None)\<rparr>))"

text \<open>
  \<open>loadContent(tabId, useCache)\<close>, run to the end with nothing else in between. A caller
  that finds a load of the key in flight is handed that promise, \<open>Pending p\<close>. The promise
  of \<open>_fetchContent\<close> is entered in \<open>loadingPromises\<close> while its request is out, which is
  before any of the state changes of \<open>_fetchContent\<close>.
\<close>

definition loadContent ::
  "app_config \<Rightarrow> network \<Rightarrow> string \<Rightarrow> bool \<Rightarrow> 'a loader_state_scheme
     \<Rightarrow> load_outcome \<times> 'a loader_state_scheme"
where
  "loadContent cfg net tabId useCache w =
     (case cache_read cfg useCache w tabId of
        Some c \<Rightarrow> (Returned c, w)
      | None \<Rightarrow>
          (case loadingPromises w tabId of
             Some p \<Rightarrow> (Pending p, w)
           | None \<Rightarrow>
               let p = promises w;
                   w1 = w\<lparr>promises := p + 1,
                          loadingPromises := (loadingPromises w)(tabId \<mapsto> p)\<rparr>;
                   fetched = fetchContent cfg net tabId w1
               in after_load tabId (fst fetched) (snd fetched)))"

text \<open>\<open>clearCache(tabId)\<close>: without an argument, or with the empty string (which is falsy),
  it clears both maps.\<close>

definition clearCache :: "string option \<Rightarrow> 'a loader_state_scheme \<Rightarrow> 'a loader_state_scheme" where
  "clearCache arg w =
     (case arg of
        Some (c # cs) \<Rightarrow>
          w\<lparr>cache := (cache w)((c # cs) := None), retryCount := (retryCount w)((c # cs) := None)\<rparr>
      | _ \<Rightarrow> w\<lparr>cache := Map.empty, retryCount := Map.empty\<rparr>)"

section \<open>The controller's own loader (\<open>CPPGuideApp\<close>, src/unnamed/part_001)\<close>

record tab_entry =
  entry_id :: string
  tab_label :: string
  tab_file :: string

definition tabsConfig :: "tab_entry list" where
  "tabsConfig =
     [\<lparr> entry_id = ''string'', tab_label = ''std::string'', tab_file = ''string.html'' \<rparr>,
      \<lparr> entry_id = ''stringstream'', tab_label = ''std::stringstream'', tab_file = ''stringstream.html'' \<rparr>,
      \<lparr> entry_id = ''vector'', tab_label = ''std::vector'', tab_file = ''vector.html'' \<rparr>,
      \<lparr> entry_id = ''map'', tab_label = ''std::map'', tab_file = ''map.html'' \<rparr>,
      \<lparr> entry_id = ''unordered_map'', tab_label = ''std::unordered_map'', tab_file = ''unordered_map.html'' \<rparr>,
      \<lparr> entry_id = ''set'', tab_label = ''std::set'', tab_file = ''set.html'' \<rparr>,
      \<lparr> entry_id = ''unordered_set'', tab_label = ''std::unordered_set'', tab_file = ''unordered_set.html'' \<rparr>,
      \<lparr> entry_id = ''priority_queue'', tab_label = ''std::priority_queue'', tab_file = ''priority_queue.html'' \<rparr>,
      \<lparr> entry_id = ''list'', tab_label = ''std::list'', tab_file = ''list.html'' \<rparr>,
      \<lparr> entry_id = ''queue'', tab_label = ''std::queue'', tab_file = ''queue.html'' \<rparr>,
      \<lparr> entry_id = ''stack'', tab_label = ''std::stack'', tab_file = ''stack.html'' \<rparr>,
      \<lparr> entry_id = ''deque'', tab_label = ''std::deque'', tab_file = ''deque.html'' \<rparr>,
      \<lparr> entry_id = ''algorithms'', tab_label = ''Algorithms'', tab_file = ''algorithms.html'' \<rparr>,
      \<lparr> entry_id = ''smart_pointers'', tab_label = ''Smart Pointers'', tab_file = ''smart_pointers.html'' \<rparr>,
      \<lparr> entry_id = ''concurrency'', tab_label = ''Concurrency'', tab_file = ''concurrency.html'' \<rparr>,
      \<lparr> entry_id = ''coroutines'', tab_label = ''Coroutines'', tab_file = ''coroutines.html'' \<rparr>,
      \<lparr> entry_id = ''oop'', tab_label = ''OOP Concepts'', tab_file = ''oop.html'' \<rparr>,
      \<lparr> entry_id = ''custom_types'', tab_label = ''Custom Types'', tab_file = ''custom_types.html'' \<rparr>]"

record app_state =
  contentCache :: "string \<rightharpoonup> string"
  app_requests :: "string list"

text \<open>\<open>CPPGuideApp.loadContent(tabId)\<close>: \<open>Inl\<close> is the message of the error the call throws
  (a rejected \<open>fetch\<close> passes its error on), \<open>Inr\<close> the content returned.\<close>

definition app_loadContent ::
  "tab_entry list \<Rightarrow> network \<Rightarrow> string \<Rightarrow> app_state \<Rightarrow> (string + string) \<times> app_state"
where
  "app_loadContent config net tabId app =
     (case contentCache app tabId of
        Some c \<Rightarrow> (Inr c, app)
      | None \<Rightarrow>
          (case find (\<lambda>tab. entry_id tab = tabId) config of
             None \<Rightarrow> (Inl (''Tab configuration not found for: '' @ tabId), app)
           | Some tabConfig \<Rightarrow>
               let url = ''content/'' @ tab_file tabConfig;
                   response = net (length (app_requests app)) url;
                   app1 = app\<lparr>app_requests := app_requests app @ [url]\<rparr>
               in (case response of
                     NetworkError message \<Rightarrow> (Inl message, app1)
                   | Response ok status statusText responseText \<Rightarrow>
                       if \<not> ok then (Inl (''HTTP error! status: '' @ show_nat status), app1)
                       else (Inr responseText,
                             app1\<lparr>contentCache := (contentCache app1)(tabId \<mapsto> responseText)\<rparr>))))"

text \<open>A run of the controller: the calls of \<open>loadContent\<close> for a list of keys, one after
  the other, from a state.\<close>

definition app_loads :: "tab_entry list \<Rightarrow> network \<Rightarrow> string list \<Rightarrow> app_state \<Rightarrow> app_state" where
  "app_loads config net tabIds app = foldl (\<lambda>a tabId. snd (app_loadContent config net tabId a)) app tabIds"

definition new_app :: app_state where
  "new_app = \<lparr> contentCache = Map.empty, app_requests = [] \<rparr>"


section \<open>The loader on the event loop\<close>

text \<open>
  \<open>loadContent\<close> and \<open>_fetchContent\<close> are \<open>async\<close> functions: each runs until its next
  \<open>await\<close> and goes on when the awaited promise settles, and calls of other code run in
  between. The functions below are the pieces between the awaits. A run of
  \<open>_fetchContent\<close> that has not settled its promise is a chain \<open>(p, tabId, phase)\<close>: \<open>p\<close>
  names the load promise it settles, and the phase says what it awaits, the answer to
  its request (with the value of \<open>retries\<close> it read at its start) or the retry timer
  (with the time at which the timer is due). \<open>resolved\<close> lists the load promises that
  are resolved while the \<open>loadContent\<close> that awaits them has not gone on yet.
\<close>

datatype phase =
  Fetching nat
| Sleeping int

record loop_state = loader_state +
  chains :: "(nat \<times> string \<times> phase) list"
  resolved :: "(nat \<times> string \<times> string) list"

definition new_loop :: "int \<Rightarrow> loop_state" where
  "new_loop t =
     \<lparr> cache = Map.empty, loadingPromises = Map.empty, retryCount = Map.empty,
       clock = t, requests = [], promises = 0, emitted = [], chains = [], resolved = [] \<rparr>"

text \<open>\<open>loadContent\<close> up to \<open>await loadPromise\<close>: the cache check, the check for a load in
  flight, and the start of \<open>_fetchContent\<close>, which reads \<open>retries\<close> and sends the request.\<close>

definition load_call :: "app_config \<Rightarrow> string \<Rightarrow> bool \<Rightarrow> loop_state \<Rightarrow> load_outcome \<times> loop_state" where
  "load_call cfg tabId useCache st =
     (case cache_read cfg useCache st tabId of
        Some c \<Rightarrow> (Returned c, st)
      | None \<Rightarrow>
          (case loadingPromises st tabId of
             Some p \<Rightarrow> (Pending p, st)
           | None \<Rightarrow>
               let p = promises st
               in (Pending p,
                   st\<lparr>promises := p + 1,
                      requests := requests st @ [content_url cfg tabId],
                      chains := chains st @ [(p, tabId, Fetching (retries_of st tabId))],
                      loadingPromises := (loadingPromises st)(tabId \<mapsto> p)\<rparr>)))"

text \<open>The chain of a promise, if it has one.\<close>

definition chain_of :: "nat \<Rightarrow> loop_state \<Rightarrow> (nat \<times> string \<times> phase) option" where
  "chain_of p st = find (\<lambda>c. fst c = p) (chains st)"

definition set_phase :: "nat \<Rightarrow> phase \<Rightarrow> loop_state \<Rightarrow> loop_state" where
  "set_phase p ph st =
     st\<lparr>chains := map (\<lambda>c. if fst c = p then (fst c, fst (snd c), ph) else c) (chains st)\<rparr>"

text \<open>\<open>_fetchContent\<close> returns: its chain ends and its promise is resolved.\<close>

definition resolve :: "nat \<Rightarrow> string \<Rightarrow> string \<Rightarrow> loop_state \<Rightarrow> loop_state" where
  "resolve p tabId c st =
     st\<lparr>chains := filter (\<lambda>ch. fst ch \<noteq> p) (chains st),
        resolved := resolved st @ [(p, tabId, c)]\<rparr>"

text \<open>The request of chain \<open>p\<close> is answered: the rest of the \<open>try\<close> block of
  \<open>_fetchContent\<close>, and its \<open>catch\<close> handler up to the timer.\<close>

definition respond :: "app_config \<Rightarrow> nat \<Rightarrow> fetch_result \<Rightarrow> loop_state \<Rightarrow> loop_state" where
  "respond cfg p response st =
     (case chain_of p st of
        Some (_, tabId, Fetching retries) \<Rightarrow>
          (case read_response response of
             Inr c \<Rightarrow> resolve p tabId c st
           | Inl message \<Rightarrow>
               if retries < retryAttempts cfg
               then set_phase p (Sleeping (clock st + retryDelay cfg * int (retries + 1)))
                      (st\<lparr>retryCount := (retryCount st)(tabId \<mapsto> retries + 1)\<rparr>)
               else resolve p tabId (getFallbackContent cfg tabId message) st)
      | _ \<Rightarrow> st)"

text \<open>The retry timer of chain \<open>p\<close> fires, no earlier than it is due:
  \<open>return this._fetchContent(tabId)\<close> reads \<open>retries\<close> and sends the next request.\<close>

definition timer :: "app_config \<Rightarrow> nat \<Rightarrow> loop_state \<Rightarrow> loop_state" where
  "timer cfg p st =
     (case chain_of p st of
        Some (_, tabId, Sleeping due) \<Rightarrow>
          if clock st < due then st
          else set_phase p (Fetching (retries_of st tabId))
                 (st\<lparr>requests := requests st @ [content_url cfg tabId]\<rparr>)
      | _ \<Rightarrow> st)"

text \<open>The \<open>loadContent\<close> that awaits the resolved promise \<open>p\<close> goes on.\<close>

definition resume :: "nat \<Rightarrow> loop_state \<Rightarrow> loop_state" where
  "resume p st =
     (case find (\<lambda>r. fst r = p) (resolved st) of
        Some (_, tabId, c) \<Rightarrow>
          snd (after_load tabId (Inr c) (st\<lparr>resolved := filter (\<lambda>r. fst r \<noteq> p) (resolved st)\<rparr>))
      | None \<Rightarrow> st)"

text \<open>What can happen on the event loop: a call of \<open>loadContent\<close>, the answer to a
  request, a retry timer, the continuation of a \<open>loadContent\<close>, the passing of time, a
  call of \<open>clearCache\<close>.\<close>

datatype loop_event =
  Load string bool
| Respond nat fetch_result
| Timer nat
| Resume nat
| Tick nat
| ClearCache "string option"

fun step :: "app_config \<Rightarrow> loop_state \<Rightarrow> loop_event \<Rightarrow> loop_state" where
  "step cfg st (Load tabId useCache) = snd (load_call cfg tabId useCache st)"
| "step cfg st (Respond p response) = respond cfg p response st"
| "step cfg st (Timer p) = timer cfg p st"
| "step cfg st (Resume p) = resume p st"
| "step cfg st (Tick d) = st\<lparr>clock := clock st + int d\<rparr>"
| "step cfg st (ClearCache arg) = clearCache arg st"

definition run :: "app_config \<Rightarrow> loop_event list \<Rightarrow> loop_state \<Rightarrow> loop_state" where
  "run cfg events st = foldl (step cfg) st events"

text \<open>The requests of a key that are out: its chains that await an answer.\<close>

definition in_flight :: "loop_state \<Rightarrow> string \<Rightarrow> (nat \<times> string \<times> phase) list" where
  "in_flight st tabId =
     filter (\<lambda>c. fst (snd c) = tabId \<and> (case snd (snd c) of Fetching _ \<Rightarrow> True | Sleeping _ \<Rightarrow> False))
       (chains st)"

definition loading :: "loop_state \<Rightarrow> string \<Rightarrow> (nat \<times> string \<times> phase) list" where
  "loading st tabId = filter (\<lambda>c. fst (snd c) = tabId) (chains st)"


section \<open>Notions used to state the properties\<close>

text \<open>Two matches overlap when each starts before the other ends.\<close>

definition overlaps :: "'p match \<Rightarrow> 'p match \<Rightarrow> bool" where
  "overlaps m1 m2 = (start m1 < end_m m2 \<and> start m2 < end_m m1)"

text \<open>The sweep without its accumulator: the matches of a list that the sweep keeps
  when it starts with \<open>currentEnd\<close> (see \<open>sweep_kept\<close> below).\<close>

fun kept :: "int \<Rightarrow> 'p match list \<Rightarrow> 'p match list" where
  "kept currentEnd [] = []"
| "kept currentEnd (m # ms) =
     (if start m \<ge> currentEnd then m # kept (end_m m) ms else kept currentEnd ms)"

text \<open>\<open>prevails k r\<close>: the match \<open>k\<close> reaches over the start of \<open>r\<close>, and \<open>k\<close> starts
  earlier than \<open>r\<close>, or at the same offset and is at least as long.\<close>

definition prevails :: "'p match \<Rightarrow> 'p match \<Rightarrow> bool" where
  "prevails k r =
     (start r < end_m k \<and> (start k < start r \<or> (start k = start r \<and> length_m r \<le> length_m k)))"

text \<open>
  What ECMAScript promises of \<open>exec\<close> on a global pattern: a match lies at or after
  \<open>lastIndex\<close> and inside the string, and \<open>result[0]\<close> is the substring matched.
  \<open>never_empty exec p\<close>: the pattern \<open>p\<close> never matches the empty string.
\<close>

definition exec_ok :: "'p engine \<Rightarrow> bool" where
  "exec_ok exec =
     (\<forall>p s i k r. exec p s i = Some (k, r) \<longrightarrow>
        i \<le> k \<and> k + length r \<le> length s \<and> r = take (length r) (drop k s))"

definition never_empty :: "'p engine \<Rightarrow> 'p \<Rightarrow> bool" where
  "never_empty exec p = (\<forall>s i k r. exec p s i = Some (k, r) \<longrightarrow> r \<noteq> [])"

definition well_formed :: "string \<Rightarrow> 'p match \<Rightarrow> bool" where
  "well_formed s m =
     (end_m m = start m + length_m m \<and> start m < end_m m \<and>
      text_m m = slice s (start m) (end_m m))"

definition in_range :: "string \<Rightarrow> 'p match \<Rightarrow> bool" where
  "in_range s m = (0 \<le> start m \<and> end_m m \<le> int (length s))"

text \<open>A pattern with a non-empty literal in its sequence.\<close>

fun has_lit :: "rx list \<Rightarrow> bool" where
  "has_lit [] = False"
| "has_lit (Lit l # rs) = (l \<noteq> [] \<or> has_lit rs)"
| "has_lit (WordB # rs) = has_lit rs"
| "has_lit (Star cs # rs) = has_lit rs"
| "has_lit (Look positive as # rs) = has_lit rs"


text \<open>
  A response is failing when the \<open>try\<close> block of \<open>_fetchContent\<close> throws on it, and
  \<open>error_message\<close> is the message of the error thrown. Three networks for the examples:
  one that rejects every request, one that answers every request with status 200 and
  a body of white space, and one that answers every request with a page.
\<close>

definition failing :: "fetch_result \<Rightarrow> bool" where
  "failing r = isl (read_response r)"

definition error_message :: "fetch_result \<Rightarrow> string" where
  "error_message r = (case read_response r of Inl message \<Rightarrow> message | Inr c \<Rightarrow> [])"

definition offline :: network where
  "offline n url = NetworkError ''Failed to fetch''"

definition blank_pages :: network where
  "blank_pages n url = Response True 200 ''OK'' [CHR 0x20, CHR 0x0A]"

definition online :: network where
  "online n url = Response True 200 ''OK'' (''<h2>'' @ url @ ''</h2>'')"

text \<open>
  A node is guarded when the parent element or one of its ancestors is a marker or the
  popover, which is the check \<open>closest('.tooltip-term') || closest('.tooltip-popover')\<close> of
  the filter; it is inside a marker when one of them is a marker.
\<close>

definition guarded :: "ancestors \<Rightarrow> bool" where
  "guarded path = (closest ''tooltip-term'' path \<noteq> None \<or> closest ''tooltip-popover'' path \<noteq> None)"

definition inside_marker :: "ancestors \<Rightarrow> bool" where
  "inside_marker path = (closest ''tooltip-term'' path \<noteq> None)"

text \<open>A document for the examples: a paragraph and the popover, before and after
  \<open>decorate\<close> with the default definitions.\<close>

definition sample_root :: node where
  "sample_root =
     Element ''DIV'' [] []
       [Element ''P'' [] [] [TextNode ''call std::move(x) twice''],
        Element ''DIV'' [''tooltip-popover''] [] [TextNode ''decltype'']]"

definition sample_decorated :: node where
  "sample_decorated =
     Element ''DIV'' [] []
       [Element ''P'' [] []
          [TextNode ''call '',
           Element ''SPAN'' [''tooltip-term'']
             [(''data-tooltip-id'', ''std-move''), (''tabindex'', ''0'')] [TextNode ''std::move''],
           TextNode ''(x) twice''],
        Element ''DIV'' [''tooltip-popover''] [] [TextNode ''decltype'']]"

text \<open>
  The invariant of the event loop: the promises of the chains and of the resolved loads
  are all different; each of them is the entry of its key in \<open>loadingPromises\<close>; every
  promise in use was created earlier.
\<close>

definition loop_inv :: "loop_state \<Rightarrow> bool" where
  "loop_inv st =
     (distinct (map fst (chains st) @ map fst (resolved st))
      \<and> (\<forall>c\<in>set (chains st). fst c < promises st \<and> loadingPromises st (fst (snd c)) = Some (fst c))
      \<and> (\<forall>r\<in>set (resolved st). fst r < promises st \<and> loadingPromises st (fst (snd r)) = Some (fst r))
      \<and> (\<forall>k p. loadingPromises st k = Some p \<longrightarrow> p < promises st))"

text \<open>
  The requests sent for a key so far, and the calls of \<open>clearCache\<close> that reach a key:
  \<open>clearCache(tabId)\<close> for that key, and \<open>clearCache()\<close>, which clears every key. Either
  deletes the retry counter of the key.
\<close>

definition sent :: "app_config \<Rightarrow> loop_state \<Rightarrow> string \<Rightarrow> nat" where
  "sent cfg st tabId = count_list (requests st) (content_url cfg tabId)"

fun clears :: "string \<Rightarrow> loop_event \<Rightarrow> bool" where
  "clears tabId (ClearCache None) = True"
| "clears tabId (ClearCache (Some a)) = (a = [] \<or> a = tabId)"
| "clears tabId (Load a useCache) = False"
| "clears tabId (Respond p response) = False"
| "clears tabId (Timer p) = False"
| "clears tabId (Resume p) = False"
| "clears tabId (Tick d) = False"

text \<open>
  The load \<open>p\<close> of a key on its way through the retries, \<open>n0\<close> being the requests sent for
  the key before the load: while a request is out, the counter is the value the request
  started with; during a wait it has been raised; once the promise is resolved, the
  ceiling is reached and the value is the fallback document of a failing answer.
\<close>

definition retrying :: "app_config \<Rightarrow> string \<Rightarrow> nat \<Rightarrow> nat \<Rightarrow> loop_state \<Rightarrow> bool" where
  "retrying cfg tabId p n0 st =
     (p < promises st
      \<and> (\<forall>k n. (p, k, Fetching n) \<in> set (chains st) \<longrightarrow>
            k = tabId \<and> n \<le> retryAttempts cfg \<and> retries_of st tabId = n
            \<and> sent cfg st tabId = n0 + n + 1)
      \<and> (\<forall>k due. (p, k, Sleeping due) \<in> set (chains st) \<longrightarrow>
            k = tabId \<and> 0 < retries_of st tabId \<and> retries_of st tabId \<le> retryAttempts cfg
            \<and> sent cfg st tabId = n0 + retries_of st tabId)
      \<and> (\<forall>k c. (p, k, c) \<in> set (resolved st) \<longrightarrow>
            k = tabId \<and> retries_of st tabId = retryAttempts cfg
            \<and> sent cfg st tabId = n0 + retryAttempts cfg + 1
            \<and> (\<exists>response. failing response
                  \<and> c = getFallbackContent cfg tabId (error_message response))))"

text \<open>
  The events of a load that nothing else runs beside: each request of the promise \<open>p\<close> is
  answered, and after each answer but the last the clock moves on by the delay of the
  retry and the timer fires. \<open>i\<close> is the count of answers before.
\<close>

fun retry_schedule :: "app_config \<Rightarrow> nat \<Rightarrow> nat \<Rightarrow> fetch_result list \<Rightarrow> loop_event list" where
  "retry_schedule cfg p i [] = []"
| "retry_schedule cfg p i [response] = [Respond p response]"
| "retry_schedule cfg p i (response # next_response # responses) =
     Respond p response # Tick (nat (retryDelay cfg * int (i + 1))) # Timer p
       # retry_schedule cfg p (i + 1) (next_response # responses)"

section \<open>The pattern matcher: sorting and the sweep\<close>

lemma sweep_kept: "sweep filtered currentEnd ms = filtered @ kept currentEnd ms"
  by (induction ms arbitrary: filtered currentEnd) auto

lemma set_kept: "set (kept currentEnd ms) \<subseteq> set ms"
  by (induction ms arbitrary: currentEnd) auto

lemma kept_sorted:
  "sorted_wrt (\<lambda>a b. start a \<le> start b) ms \<Longrightarrow> sorted_wrt (\<lambda>a b. start a \<le> start b) (kept currentEnd ms)"
proof (induction ms arbitrary: currentEnd)
  case Nil
  then show ?case by simp
next
  case (Cons m ms)
  have "\<forall>b\<in>set (kept (end_m m) ms). start m \<le> start b"
    using Cons.prems set_kept[of "end_m m" ms] by auto
  with Cons show ?case by auto
qed

lemma kept_from:
  "sorted_wrt (\<lambda>a b. start a \<le> start b) ms \<Longrightarrow> b \<in> set (kept currentEnd ms) \<Longrightarrow> currentEnd \<le> start b"
proof (induction ms arbitrary: currentEnd)
  case Nil
  then show ?case by simp
next
  case (Cons m ms)
  show ?case
  proof (cases "start m \<ge> currentEnd")
    case True
    with Cons.prems(2) have "b = m \<or> b \<in> set (kept (end_m m) ms)" by simp
    then show ?thesis
    proof
      assume "b = m" with True show ?thesis by simp
    next
      assume "b \<in> set (kept (end_m m) ms)"
      then have "b \<in> set ms" using set_kept by blast
      with Cons.prems(1) have "start m \<le> start b" by simp
      with True show ?thesis by simp
    qed
  next
    case False
    with Cons show ?thesis by simp
  qed
qed

lemma kept_disjoint:
  "sorted_wrt (\<lambda>a b. start a \<le> start b) ms \<Longrightarrow>
   sorted_wrt (\<lambda>a b. end_m a \<le> start b) (kept currentEnd ms)"
proof (induction ms arbitrary: currentEnd)
  case Nil
  then show ?case by simp
next
  case (Cons m ms)
  from Cons.prems have tl: "sorted_wrt (\<lambda>a b. start a \<le> start b) ms" by simp
  show ?case
  proof (cases "start m \<ge> currentEnd")
    case True
    have "\<forall>b\<in>set (kept (end_m m) ms). end_m m \<le> start b"
      using kept_from[OF tl] by blast
    with True Cons.IH[OF tl] show ?thesis by simp
  next
    case False
    with Cons.IH[OF tl] show ?thesis by simp
  qed
qed

lemma compare_m_le: "compare_m a b \<le> 0 \<longleftrightarrow> start a < start b \<or> (start a = start b \<and> length_m b \<le> length_m a)"
  by (auto simp: compare_m_def)

lemma set_insert_m: "set (insert_m x ys) = insert x (set ys)"
  by (induction ys) auto

lemma set_sort_m: "set (sort_m ms) = set ms"
  unfolding sort_m_def by (induction ms) (auto simp: set_insert_m)

lemma insert_m_sorted:
  "sorted_wrt (\<lambda>a b. compare_m a b \<le> 0) ys \<Longrightarrow> sorted_wrt (\<lambda>a b. compare_m a b \<le> 0) (insert_m x ys)"
proof (induction ys)
  case Nil
  then show ?case by simp
next
  case (Cons y ys)
  show ?case
  proof (cases "compare_m x y \<le> 0")
    case True
    have "\<forall>b\<in>set ys. compare_m x b \<le> 0"
    proof
      fix b assume "b \<in> set ys"
      with Cons.prems have "compare_m y b \<le> 0" by simp
      with True show "compare_m x b \<le> 0" unfolding compare_m_le by linarith
    qed
    with True Cons.prems show ?thesis by simp
  next
    case False
    then have "compare_m y x \<le> 0" unfolding compare_m_le by linarith
    with False Cons show ?thesis by (auto simp: set_insert_m)
  qed
qed

lemma sort_m_sorted: "sorted_wrt (\<lambda>a b. compare_m a b \<le> 0) (sort_m ms)"
  unfolding sort_m_def by (induction ms) (auto intro: insert_m_sorted)

lemma sort_m_sorted_start: "sorted_wrt (\<lambda>a b. start a \<le> start b) (sort_m ms)"
  by (rule sorted_wrt_mono_rel[OF _ sort_m_sorted]) (auto simp: compare_m_le)

lemma findMatches_eq:
  "findMatches exec definitions s = Some ms \<Longrightarrow>
   \<exists>raw. scan_definitions exec s definitions [] = Some raw \<and> ms = kept (- 1) (sort_m raw)"
  by (auto simp: findMatches_def sweep_kept sort_m_def split: option.splits if_splits)

lemma kept_prevails:
  "sorted_wrt (\<lambda>a b. compare_m a b \<le> 0) ms \<Longrightarrow> r \<in> set ms \<Longrightarrow>
   r \<in> set (kept currentEnd ms) \<or> start r < currentEnd \<or> (\<exists>k\<in>set (kept currentEnd ms). prevails k r)"
proof (induction ms arbitrary: currentEnd)
  case Nil
  then show ?case by simp
next
  case (Cons m ms)
  from Cons.prems have tl: "sorted_wrt (\<lambda>a b. compare_m a b \<le> 0) ms" by simp
  show ?case
  proof (cases "r \<in> set ms")
    case False
    with Cons.prems have "r = m" by simp
    then show ?thesis by (cases "start m \<ge> currentEnd") auto
  next
    case True
    show ?thesis
    proof (cases "start m \<ge> currentEnd")
      case keep: True
      from Cons.prems(1) True have "compare_m m r \<le> 0" by simp
      then have le: "start m < start r \<or> (start m = start r \<and> length_m r \<le> length_m m)"
        by (simp add: compare_m_le)
      from Cons.IH[OF tl True, of "end_m m"] keep le show ?thesis
        by (auto simp: prevails_def)
    next
      case skip: False
      with Cons.IH[OF tl True, of currentEnd] show ?thesis by auto
    qed
  qed
qed

lemma exec_loop_start:
  assumes "exec_loop exec d p s lastIndex matches = Some res"
  shows "(\<forall>m\<in>set matches. 0 \<le> start m) \<longrightarrow> (\<forall>m\<in>set res. 0 \<le> start m)"
proof (rule exec_loop.raw_induct
    [where P = "\<lambda>exec d p s lastIndex matches res.
                  (\<forall>m\<in>set matches. 0 \<le> start m) \<longrightarrow> (\<forall>m\<in>set res. 0 \<le> start m)",
     OF _ assms])
  fix loop :: "'a engine \<Rightarrow> 'a definition_rec \<Rightarrow> 'a \<Rightarrow> string \<Rightarrow> nat \<Rightarrow> 'a match list \<Rightarrow> 'a match list option"
  fix exec d p s lastIndex matches res
  assume IH: "\<And>exec d p s lastIndex matches res. loop exec d p s lastIndex matches = Some res \<Longrightarrow>
                (\<forall>m\<in>set matches. 0 \<le> start m) \<longrightarrow> (\<forall>m\<in>set res. 0 \<le> start m)"
  assume body: "(case exec p s lastIndex of
        None \<Rightarrow> Some matches
      | Some (index, r0) \<Rightarrow>
          loop exec d p s (index + length r0)
            (matches @
              [\<lparr> start = int index, end_m = int index + int (length r0),
                 length_m = int (length r0), text_m = r0,
                 definitionId = def_id d, context_m = d \<rparr>])) = Some res"
  show "(\<forall>m\<in>set matches. 0 \<le> start m) \<longrightarrow> (\<forall>m\<in>set res. 0 \<le> start m)"
  proof (cases "exec p s lastIndex")
    case None
    with body show ?thesis by simp
  next
    case (Some a)
    obtain index r0 where a: "a = (index, r0)" by (cases a)
    from body Some a have
      "loop exec d p s (index + length r0)
         (matches @ [\<lparr> start = int index, end_m = int index + int (length r0),
            length_m = int (length r0), text_m = r0, definitionId = def_id d, context_m = d \<rparr>])
       = Some res" by simp
    from IH[OF this] show ?thesis by simp
  qed
qed

lemma scan_triggers_start:
  "scan_triggers exec d s ps matches = Some res \<Longrightarrow> \<forall>m\<in>set matches. 0 \<le> start m \<Longrightarrow>
   \<forall>m\<in>set res. 0 \<le> start m"
proof (induction ps arbitrary: matches)
  case Nil
  then show ?case by simp
next
  case (Cons p ps)
  from Cons.prems(1) obtain mid where
    m1: "exec_loop exec d p s 0 matches = Some mid" and m2: "scan_triggers exec d s ps mid = Some res"
    by (auto split: option.splits)
  from exec_loop_start[OF m1] Cons.prems(2) have "\<forall>m\<in>set mid. 0 \<le> start m" by blast
  from Cons.IH[OF m2 this] show ?case .
qed

lemma scan_definitions_start:
  "scan_definitions exec s ds matches = Some res \<Longrightarrow> \<forall>m\<in>set matches. 0 \<le> start m \<Longrightarrow>
   \<forall>m\<in>set res. 0 \<le> start m"
proof (induction ds arbitrary: matches)
  case Nil
  then show ?case by simp
next
  case (Cons d ds)
  from Cons.prems(1) obtain mid where
    m1: "scan_triggers exec d s (triggers d) matches = Some mid"
    and m2: "scan_definitions exec s ds mid = Some res"
    by (auto split: option.splits)
  from scan_triggers_start[OF m1 Cons.prems(2)] have "\<forall>m\<in>set mid. 0 \<le> start m" .
  from Cons.IH[OF m2 this] show ?case .
qed

lemma findMatches_of_raw:
  "scan_definitions exec s definitions [] = Some raw \<Longrightarrow>
   findMatches exec definitions s = Some (kept (- 1) (sort_m raw))"
  by (auto simp: findMatches_def sweep_kept sort_m_def)

lemma findMatches_prevails:
  assumes raw: "scan_definitions exec s definitions [] = Some raw"
  shows "\<exists>ms. findMatches exec definitions s = Some ms \<and>
           (\<forall>r\<in>set raw. r \<in> set ms \<or> (\<exists>k\<in>set ms. prevails k r))"
proof -
  let ?ms = "kept (- 1) (sort_m raw)"
  have nonneg: "\<forall>m\<in>set raw. 0 \<le> start m"
    using scan_definitions_start[OF raw] by simp
  have "r \<in> set ?ms \<or> (\<exists>k\<in>set ?ms. prevails k r)" if r: "r \<in> set raw" for r
  proof -
    from r have "r \<in> set (sort_m raw)" by (simp add: set_sort_m)
    from kept_prevails[OF sort_m_sorted this, of "- 1"] nonneg r show ?thesis by fastforce
  qed
  with findMatches_of_raw[OF raw] show ?thesis by blast
qed

lemma scenario_raw:
  "map_option (map (\<lambda>m. (start m, end_m m, text_m m))) (scan_definitions rx_exec ''std::move(x)'' DEFAULT_TOOLTIP_DEFINITIONS []) =
     Some [(0, 9, ''std::move''), (5, 9, ''move'')]"
  by code_simp

lemma scenario_result:
  "findMatches rx_exec DEFAULT_TOOLTIP_DEFINITIONS ''std::move(x)'' =
     Some [\<lparr> start = 0, end_m = 9, length_m = 9, text_m = ''std::move'',
             definitionId = ''std-move'', context_m = tip_std_move \<rparr>]"
  by code_simp

lemma slice_nat:
  "a \<le> b \<Longrightarrow> b \<le> length s \<Longrightarrow> slice s (int a) (int b) = take (b - a) (drop a s)"
  by (simp add: slice_def Let_def min_def nat_diff_distrib' of_nat_diff)

lemma exec_loop_total:
  assumes ok: "exec_ok exec" and ne: "never_empty exec p"
  shows "\<exists>res. exec_loop exec d p s lastIndex matches = Some (matches @ res) \<and>
           (\<forall>m\<in>set res. in_range s m \<and> well_formed s m)"
proof (induction "Suc (length s) - lastIndex" arbitrary: lastIndex matches rule: less_induct)
  case less
  show ?case
  proof (cases "exec p s lastIndex")
    case None
    then have "exec_loop exec d p s lastIndex matches = Some (matches @ [])"
      by (subst exec_loop.simps) simp
    then show ?thesis by (intro exI[of _ "[]"]) simp
  next
    case (Some a)
    obtain k r where a: "a = (k, r)" by (cases a)
    from ok Some a have k: "lastIndex \<le> k" "k + length r \<le> length s" "r = take (length r) (drop k s)"
      unfolding exec_ok_def by blast+
    from ne Some a have r: "r \<noteq> []" unfolding never_empty_def by blast
    let ?m = "\<lparr> start = int k, end_m = int k + int (length r), length_m = int (length r),
                text_m = r, definitionId = def_id d, context_m = d \<rparr>"
    from k r have "Suc (length s) - (k + length r) < Suc (length s) - lastIndex"
      by (cases r) auto
    from less[OF this, of "matches @ [?m]"] obtain res where
      res: "exec_loop exec d p s (k + length r) (matches @ [?m]) = Some ((matches @ [?m]) @ res)"
      and wf: "\<forall>m\<in>set res. in_range s m \<and> well_formed s m" by blast
    have step: "exec_loop exec d p s lastIndex matches = Some (matches @ (?m # res))"
      by (subst exec_loop.simps) (simp add: Some a res)
    have "slice s (int k) (int (k + length r)) = take (length r) (drop k s)"
      using k(2) by (subst slice_nat) simp_all
    with k r have "in_range s ?m \<and> well_formed s ?m"
      by (simp add: in_range_def well_formed_def)
    with wf step show ?thesis by (intro exI[of _ "?m # res"]) simp
  qed
qed

lemma scan_triggers_total:
  assumes ok: "exec_ok exec" and ne: "\<forall>p\<in>set ps. never_empty exec p"
  shows "\<exists>res. scan_triggers exec d s ps matches = Some (matches @ res) \<and>
           (\<forall>m\<in>set res. in_range s m \<and> well_formed s m)"
  using ne
proof (induction ps arbitrary: matches)
  case Nil
  then show ?case by simp
next
  case (Cons p ps)
  from exec_loop_total[OF ok, of p d s 0 matches] Cons.prems obtain r1 where
    r1: "exec_loop exec d p s 0 matches = Some (matches @ r1)"
    and w1: "\<forall>m\<in>set r1. in_range s m \<and> well_formed s m" by auto
  from Cons.IH[of "matches @ r1"] Cons.prems obtain r2 where
    r2: "scan_triggers exec d s ps (matches @ r1) = Some ((matches @ r1) @ r2)"
    and w2: "\<forall>m\<in>set r2. in_range s m \<and> well_formed s m" by auto
  from r1 r2 w1 w2 show ?case by (intro exI[of _ "r1 @ r2"]) auto
qed

lemma scan_definitions_total:
  assumes ok: "exec_ok exec" and ne: "\<forall>d\<in>set ds. \<forall>p\<in>set (triggers d). never_empty exec p"
  shows "\<exists>res. scan_definitions exec s ds matches = Some (matches @ res) \<and>
           (\<forall>m\<in>set res. in_range s m \<and> well_formed s m)"
  using ne
proof (induction ds arbitrary: matches)
  case Nil
  then show ?case by simp
next
  case (Cons d ds)
  from scan_triggers_total[OF ok, of "triggers d" d s matches] Cons.prems obtain r1 where
    r1: "scan_triggers exec d s (triggers d) matches = Some (matches @ r1)"
    and w1: "\<forall>m\<in>set r1. in_range s m \<and> well_formed s m" by auto
  from Cons.IH[of "matches @ r1"] Cons.prems obtain r2 where
    r2: "scan_definitions exec s ds (matches @ r1) = Some ((matches @ r1) @ r2)"
    and w2: "\<forall>m\<in>set r2. in_range s m \<and> well_formed s m" by auto
  from r1 r2 w1 w2 show ?case by (intro exI[of _ "r1 @ r2"]) auto
qed

lemma findMatches_total:
  assumes ok: "exec_ok exec" and ne: "\<forall>d\<in>set definitions. \<forall>p\<in>set (triggers d). never_empty exec p"
  shows "\<exists>ms. findMatches exec definitions s = Some ms \<and>
           (\<forall>m\<in>set ms. in_range s m \<and> well_formed s m) \<and>
           sorted_wrt (\<lambda>a b. end_m a \<le> start b) ms"
proof -
  from scan_definitions_total[OF ok ne, of s "[]"] obtain raw where
    raw: "scan_definitions exec s definitions [] = Some raw"
    and wf: "\<forall>m\<in>set raw. in_range s m \<and> well_formed s m" by auto
  let ?ms = "kept (- 1) (sort_m raw)"
  have "set ?ms \<subseteq> set raw" using set_kept[of "- 1" "sort_m raw"] by (simp add: set_sort_m)
  with wf have "\<forall>m\<in>set ?ms. in_range s m \<and> well_formed s m" by blast
  moreover have "sorted_wrt (\<lambda>a b. end_m a \<le> start b) ?ms"
    by (rule kept_disjoint[OF sort_m_sorted_start])
  ultimately show ?thesis using findMatches_of_raw[OF raw] by blast
qed

lemma textContent_createTermNode: "textContent (createTermNode m path) = text_m m"
  by (simp add: createTermNode_def)

lemma take_slice:
  "0 \<le> a \<Longrightarrow> a \<le> b \<Longrightarrow> b \<le> int (length s) \<Longrightarrow> take (nat a) s @ slice s a b = take (nat b) s"
proof -
  assume a: "0 \<le> a" "a \<le> b" "b \<le> int (length s)"
  then have "slice s a b = take (nat b - nat a) (drop (nat a) s)"
    using slice_nat[of "nat a" "nat b" s] by simp
  moreover have "nat b = nat a + (nat b - nat a)" using a by simp
  ultimately show ?thesis by (metis take_add)
qed

lemma append_matches_text:
  assumes "sorted_wrt (\<lambda>a b. end_m a \<le> start b) ms"
    and "\<forall>m\<in>set ms. in_range s m \<and> well_formed s m \<and> lastIndex \<le> start m"
    and "0 \<le> lastIndex" and "lastIndex \<le> int (length s)"
    and "concat (map textContent fragment) = take (nat lastIndex) s"
  shows "concat (map textContent (fst (foldl (append_match s path) (fragment, lastIndex) ms)))
           = take (nat (snd (foldl (append_match s path) (fragment, lastIndex) ms))) s
         \<and> 0 \<le> snd (foldl (append_match s path) (fragment, lastIndex) ms)
         \<and> snd (foldl (append_match s path) (fragment, lastIndex) ms) \<le> int (length s)"
  using assms
proof (induction ms arbitrary: fragment lastIndex)
  case Nil
  then show ?case by simp
next
  case (Cons m ms)
  from Cons.prems(2) have m: "0 \<le> start m" "end_m m \<le> int (length s)" "start m < end_m m"
    "text_m m = slice s (start m) (end_m m)" "lastIndex \<le> start m"
    by (auto simp: in_range_def well_formed_def)
  let ?acc = "append_match s path (fragment, lastIndex) m"
  have snd_acc: "snd ?acc = end_m m" by (simp add: append_match_def Let_def)
  have "concat (map textContent (fst ?acc)) = take (nat lastIndex) s @ slice s lastIndex (start m) @ slice s (start m) (end_m m)"
  proof (cases "start m > lastIndex")
    case True
    then show ?thesis
      by (simp add: append_match_def Let_def Cons.prems(5) textContent_createTermNode m(4))
  next
    case False
    with m(5) have "lastIndex = start m" by simp
    then have "slice s lastIndex (start m) = []" by (simp add: slice_def Let_def)
    with False show ?thesis
      by (simp add: append_match_def Let_def Cons.prems(5) textContent_createTermNode m(4))
  qed
  also have "\<dots> = take (nat (end_m m)) s"
  proof -
    have 1: "take (nat lastIndex) s @ slice s lastIndex (start m) = take (nat (start m)) s"
      using Cons.prems(3) m by (intro take_slice) auto
    have 2: "take (nat (start m)) s @ slice s (start m) (end_m m) = take (nat (end_m m)) s"
      using m by (intro take_slice) auto
    show ?thesis by (simp only: append_assoc[symmetric] 1 2)
  qed
  finally have tc: "concat (map textContent (fst ?acc)) = take (nat (snd ?acc)) s"
    by (simp add: snd_acc)
  have rest: "\<forall>m'\<in>set ms. in_range s m' \<and> well_formed s m' \<and> snd ?acc \<le> start m'"
    using Cons.prems(1,2) by (auto simp: snd_acc)
  have sorted: "sorted_wrt (\<lambda>a b. end_m a \<le> start b) ms" using Cons.prems(1) by simp
  have b: "0 \<le> snd ?acc" "snd ?acc \<le> int (length s)" using m by (auto simp: snd_acc)
  from Cons.IH[OF sorted, of "snd ?acc" "fst ?acc"] rest b tc
  show ?case by simp
qed

lemma processTextNode_text:
  assumes ok: "exec_ok exec" and ne: "\<forall>d\<in>set definitions. \<forall>p\<in>set (triggers d). never_empty exec p"
  shows "\<exists>nodes. processTextNode exec definitions path s = Some nodes \<and>
           concat (map textContent nodes) = s"
proof -
  from findMatches_total[OF ok ne, of s] obtain ms where
    ms: "findMatches exec definitions s = Some ms"
    and wf: "\<forall>m\<in>set ms. in_range s m \<and> well_formed s m"
    and sorted: "sorted_wrt (\<lambda>a b. end_m a \<le> start b) ms" by blast
  let ?acc = "foldl (append_match s path) ([], 0) ms"
  have wf0: "\<forall>m\<in>set ms. in_range s m \<and> well_formed s m \<and> 0 \<le> start m"
    using wf by (auto simp: in_range_def)
  from append_matches_text[OF sorted wf0, of "[]" path] have
    acc: "concat (map textContent (fst ?acc)) = take (nat (snd ?acc)) s"
      "0 \<le> snd ?acc" "snd ?acc \<le> int (length s)" by simp_all
  have tail: "take (nat (snd ?acc)) s @ slice_from s (snd ?acc) = s"
    using take_slice[of "snd ?acc" "int (length s)" s] acc(2,3) by (simp add: slice_from_def)
  show ?thesis
  proof (cases "s = [] \<or> ms = []")
    case True
    then show ?thesis by (auto simp: processTextNode_def ms)
  next
    case False
    show ?thesis
    proof (cases "snd ?acc < int (length s)")
      case True
      with False ms acc tail show ?thesis by (simp add: processTextNode_def Let_def)
    next
      case False
      with acc(3) have "nat (snd ?acc) = length s" by simp
      with \<open>\<not> (s = [] \<or> ms = [])\<close> False ms acc show ?thesis
        by (simp add: processTextNode_def Let_def)
    qed
  qed
qed

lemma take_drop_eq_length:
  "take (length l) (drop pos s) = l \<Longrightarrow> pos + length l \<le> length s \<or> l = []"
proof -
  assume "take (length l) (drop pos s) = l"
  then have "length (take (length l) (drop pos s)) = length l" by simp
  then show ?thesis by (cases l) (auto simp: min_def split: if_splits)
qed

lemma rx_match_bounds:
  "rx_match rs s pos = Some e \<Longrightarrow> pos \<le> length s \<Longrightarrow> pos \<le> e \<and> e \<le> length s"
  and "star_back rs s pos k = Some e \<Longrightarrow> pos + k \<le> length s \<Longrightarrow> pos \<le> e \<and> e \<le> length s"
proof (induction rs s pos and rs s pos k arbitrary: e and e rule: rx_match_star_back.induct)
  case (1 s pos)
  then show ?case by simp
next
  case (2 l rs s pos)
  from "2.prems"(1) have eq: "take (length l) (drop pos s) = l" and m: "rx_match rs s (pos + length l) = Some e"
    by (auto split: if_splits)
  from take_drop_eq_length[OF eq] "2.prems"(2) have "pos + length l \<le> length s" by auto
  from "2.IH"[OF eq m this] show ?case by simp
next
  case (3 rs s pos)
  then show ?case by (auto split: if_splits)
next
  case (4 cs rs s pos)
  have "length (takeWhile (in_cset cs) (drop pos s)) \<le> length (drop pos s)"
    by (rule length_takeWhile_le)
  with "4.prems"(2) have "pos + length (takeWhile (in_cset cs) (drop pos s)) \<le> length s" by simp
  from "4.IH"[OF _ this] "4.prems"(1) show ?case by simp
next
  case (5 positive as rs s pos)
  then show ?case by (auto split: if_splits)
next
  case (6 rs s pos k)
  show ?case
  proof (cases "rx_match rs s (pos + k)")
    case (Some e')
    with "6.prems"(1) have "e' = e" by simp
    with "6.IH"(1)[OF _ "6.prems"(2)] Some show ?thesis by simp
  next
    case None
    with "6.prems"(1) obtain j where k: "k = Suc j" and sb: "star_back rs s pos j = Some e"
      by (cases k) auto
    from "6.IH"(2)[OF None k sb] "6.prems"(2) k show ?thesis by simp
  qed
qed

lemma rx_match_progress:
  "has_lit rs \<Longrightarrow> rx_match rs s pos = Some e \<Longrightarrow> pos \<le> length s \<Longrightarrow> pos < e"
  and "has_lit rs \<Longrightarrow> star_back rs s pos k = Some e \<Longrightarrow> pos + k \<le> length s \<Longrightarrow> pos < e"
proof (induction rs s pos and rs s pos k arbitrary: e and e rule: rx_match_star_back.induct)
  case (1 s pos)
  then show ?case by simp
next
  case (2 l rs s pos)
  from "2.prems"(2) have eq: "take (length l) (drop pos s) = l" and m: "rx_match rs s (pos + length l) = Some e"
    by (auto split: if_splits)
  from take_drop_eq_length[OF eq] "2.prems"(3) have le: "pos + length l \<le> length s" by auto
  show ?case
  proof (cases "l = []")
    case True
    with "2.prems"(1) have "has_lit rs" by simp
    from "2.IH"[OF eq this m le] True show ?thesis by simp
  next
    case False
    from rx_match_bounds(1)[OF m le] False show ?thesis by (cases l) auto
  qed
next
  case (3 rs s pos)
  then show ?case by (auto split: if_splits)
next
  case (4 cs rs s pos)
  have "length (takeWhile (in_cset cs) (drop pos s)) \<le> length (drop pos s)"
    by (rule length_takeWhile_le)
  with "4.prems"(3) have "pos + length (takeWhile (in_cset cs) (drop pos s)) \<le> length s" by simp
  from "4.IH"[OF _ _ this] "4.prems"(1,2) show ?case by simp
next
  case (5 positive as rs s pos)
  then show ?case by (auto split: if_splits)
next
  case (6 rs s pos k)
  show ?case
  proof (cases "rx_match rs s (pos + k)")
    case (Some e')
    with "6.prems"(2) have "e' = e" by simp
    with "6.IH"(1)[OF "6.prems"(1) _ "6.prems"(3)] Some show ?thesis by simp
  next
    case None
    with "6.prems"(2) obtain j where k: "k = Suc j" and sb: "star_back rs s pos j = Some e"
      by (cases k) auto
    from "6.IH"(2)[OF None k "6.prems"(1) sb] "6.prems"(3) k show ?thesis by simp
  qed
qed

lemma rx_search_Some:
  "rx_search p s is = Some (i, r) \<Longrightarrow>
   i \<in> set is \<and> (\<exists>e. rx_match p s i = Some e \<and> r = take (e - i) (drop i s))"
  by (induction "is") (auto split: option.splits)

lemma rx_exec_ok: "exec_ok rx_exec"
  unfolding exec_ok_def
proof (intro allI impI)
  fix p s i k r
  assume "rx_exec p s i = Some (k, r)"
  from rx_search_Some[OF this[unfolded rx_exec_def]] obtain e where
    k: "i \<le> k" "k \<le> length s" and e: "rx_match p s k = Some e" and r: "r = take (e - k) (drop k s)"
    by auto
  from rx_match_bounds(1)[OF e k(2)] have b: "k \<le> e" "e \<le> length s" by simp_all
  with r have "length r = e - k" by simp
  with k b r show "i \<le> k \<and> k + length r \<le> length s \<and> r = take (length r) (drop k s)" by simp
qed

lemma rx_exec_never_empty: "has_lit p \<Longrightarrow> never_empty rx_exec p"
  unfolding never_empty_def
proof (intro allI impI)
  fix s i k r
  assume lit: "has_lit p" and "rx_exec p s i = Some (k, r)"
  from rx_search_Some[OF this(2)[unfolded rx_exec_def]] obtain e where
    k: "i \<le> k" "k \<le> length s" and e: "rx_match p s k = Some e" and r: "r = take (e - k) (drop k s)"
    by auto
  from rx_match_bounds(1)[OF e k(2)] rx_match_progress(1)[OF lit e k(2)]
  have "k < e" "e \<le> length s" by simp_all
  with r show "r \<noteq> []" by auto
qed

lemma default_triggers_have_lit:
  "\<forall>d\<in>set DEFAULT_TOOLTIP_DEFINITIONS. \<forall>p\<in>set (triggers d). has_lit p"
  by code_simp

lemma definitionMap_find:
  "definitionMap definitions i = find (\<lambda>d. def_id d = i) (rev definitions)"
  unfolding definitionMap_def
  by (induction definitions rule: rev_induct) auto

section \<open>The pattern matcher: the claims\<close>

text \<open>
  Claim C4. For every text and every list of definitions, a result of \<open>findMatches\<close> holds
  no two matches \<open>m1\<close>, \<open>m2\<close> with \<open>m1.start < m2.end\<close> and \<open>m2.start < m1.end\<close>, and it is
  in ascending order of \<open>start\<close>. (\<open>sorted_wrt R ms\<close> says that \<open>R a b\<close> holds for every \<open>a\<close>
  that stands before \<open>b\<close> in \<open>ms\<close>; \<open>overlaps\<close> is symmetric.) And \<open>findMatches\<close> does return
  when the engine keeps the contract of \<open>exec\<close> and no trigger matches the empty string.
\<close>

theorem findMatches_sorted_nonoverlapping:
  "(\<forall>ms. findMatches exec definitions s = Some ms \<longrightarrow>
      sorted_wrt (\<lambda>a b. start a \<le> start b) ms \<and> sorted_wrt (\<lambda>a b. \<not> overlaps a b) ms)
   \<and> (exec_ok exec \<and> (\<forall>d\<in>set definitions. \<forall>p\<in>set (triggers d). never_empty exec p) \<longrightarrow>
        (\<exists>ms. findMatches exec definitions s = Some ms))"
proof (intro conjI allI impI)
  fix ms assume found: "findMatches exec definitions s = Some ms"
  from findMatches_eq[OF found] obtain raw where ms: "ms = kept (- 1) (sort_m raw)" by blast
  show "sorted_wrt (\<lambda>a b. start a \<le> start b) ms"
    unfolding ms by (rule kept_sorted[OF sort_m_sorted_start])
  have "sorted_wrt (\<lambda>a b. end_m a \<le> start b) ms"
    unfolding ms by (rule kept_disjoint[OF sort_m_sorted_start])
  then show "sorted_wrt (\<lambda>a b. \<not> overlaps a b) ms"
    by (rule sorted_wrt_mono_rel[rotated]) (auto simp: overlaps_def)
next
  assume "exec_ok exec \<and> (\<forall>d\<in>set definitions. \<forall>p\<in>set (triggers d). never_empty exec p)"
  then have ok: "exec_ok exec"
    and ne: "\<forall>d\<in>set definitions. \<forall>p\<in>set (triggers d). never_empty exec p" by blast+
  from findMatches_total[OF ok ne, of s] show "\<exists>ms. findMatches exec definitions s = Some ms"
    by blast
qed

theorem findMatches_sorted_nonoverlapping_witness:
  "\<exists>ms. findMatches rx_exec DEFAULT_TOOLTIP_DEFINITIONS ''auto p = std::move(q); decltype(x) move (y)'' = Some ms
      \<and> map (\<lambda>m. (start m, end_m m, definitionId m)) ms =
          [(0, 4, ''auto-keyword''), (9, 18, ''std-move''), (23, 31, ''decltype''), (35, 39, ''std-move'')]
      \<and> sorted_wrt (\<lambda>a b. start a \<le> start b) ms \<and> sorted_wrt (\<lambda>a b. \<not> overlaps a b) ms"
proof -
  have "map_option (map (\<lambda>m. (start m, end_m m, definitionId m)))
          (findMatches rx_exec DEFAULT_TOOLTIP_DEFINITIONS ''auto p = std::move(q); decltype(x) move (y)'')
        = Some [(0, 4, ''auto-keyword''), (9, 18, ''std-move''), (23, 31, ''decltype''), (35, 39, ''std-move'')]"
    by code_simp
  then obtain ms where
    ms: "findMatches rx_exec DEFAULT_TOOLTIP_DEFINITIONS ''auto p = std::move(q); decltype(x) move (y)'' = Some ms"
    and vals: "map (\<lambda>m. (start m, end_m m, definitionId m)) ms =
          [(0, 4, ''auto-keyword''), (9, 18, ''std-move''), (23, 31, ''decltype''), (35, 39, ''std-move'')]"
    by auto
  from findMatches_sorted_nonoverlapping[of rx_exec DEFAULT_TOOLTIP_DEFINITIONS
      "''auto p = std::move(q); decltype(x) move (y)''"] ms
  have "sorted_wrt (\<lambda>a b. start a \<le> start b) ms \<and> sorted_wrt (\<lambda>a b. \<not> overlaps a b) ms"
    by blast
  with ms vals show ?thesis
    by (intro exI[of _ ms]) simp
qed

text \<open>
  Claim C5. \<open>findMatches\<close> settles overlaps for the match that starts earlier and, at the
  same start, for the longer one: every raw match that is not returned has its start
  inside a returned match that starts earlier, or at the same offset with at least its
  length. With the default definitions and the text \<open>std::move(x)\<close>, the triggers
  \<open>/std::move/\<close> and \<open>/\bmove\b(?=\s*\()/\<close> both match (at 0 and at 5), and the result is
  the one match of \<open>std::move\<close>.
\<close>

theorem findMatches_prefers_earlier_then_longer:
  "(\<forall>raw. scan_definitions exec s definitions [] = Some raw \<longrightarrow>
      (\<exists>ms. findMatches exec definitions s = Some ms \<and>
         (\<forall>r\<in>set raw. r \<in> set ms \<or> (\<exists>k\<in>set ms. prevails k r))))
   \<and> map_option (map (\<lambda>m. (start m, end_m m, text_m m)))
         (scan_definitions rx_exec ''std::move(x)'' DEFAULT_TOOLTIP_DEFINITIONS [])
       = Some [(0, 9, ''std::move''), (5, 9, ''move'')]
   \<and> findMatches rx_exec DEFAULT_TOOLTIP_DEFINITIONS ''std::move(x)''
       = Some [\<lparr> start = 0, end_m = 9, length_m = 9, text_m = ''std::move'',
                 definitionId = ''std-move'', context_m = tip_std_move \<rparr>]"
  using findMatches_prevails scenario_raw scenario_result by blast

theorem findMatches_prefers_earlier_then_longer_witness:
  "\<exists>raw ms. scan_definitions rx_exec ''std::move(x)'' DEFAULT_TOOLTIP_DEFINITIONS [] = Some raw
      \<and> map (\<lambda>m. (start m, end_m m, text_m m)) raw = [(0, 9, ''std::move''), (5, 9, ''move'')]
      \<and> findMatches rx_exec DEFAULT_TOOLTIP_DEFINITIONS ''std::move(x)'' = Some ms
      \<and> map (\<lambda>m. (start m, end_m m, text_m m)) ms = [(0, 9, ''std::move'')]
      \<and> (\<forall>r\<in>set raw. r \<in> set ms \<or> (\<exists>k\<in>set ms. prevails k r))"
proof -
  from scenario_raw obtain raw where
    raw: "scan_definitions rx_exec ''std::move(x)'' DEFAULT_TOOLTIP_DEFINITIONS [] = Some raw"
    and vals: "map (\<lambda>m. (start m, end_m m, text_m m)) raw = [(0, 9, ''std::move''), (5, 9, ''move'')]"
    by auto
  from findMatches_prefers_earlier_then_longer[of rx_exec "''std::move(x)''" DEFAULT_TOOLTIP_DEFINITIONS] raw
  obtain ms where ms: "findMatches rx_exec DEFAULT_TOOLTIP_DEFINITIONS ''std::move(x)'' = Some ms"
    and pre: "\<forall>r\<in>set raw. r \<in> set ms \<or> (\<exists>k\<in>set ms. prevails k r)"
    by blast
  from ms scenario_result have "map (\<lambda>m. (start m, end_m m, text_m m)) ms = [(0, 9, ''std::move'')]"
    by auto
  with raw vals ms pre show ?thesis by (intro exI[of _ raw] exI[of _ ms]) simp
qed

text \<open>
  Claim C10. Let the engine keep the contract of \<open>exec\<close> and let no trigger of the
  definitions match the empty string. Then \<open>findMatches\<close> returns, every match it returns
  has \<open>end = start + length\<close>, \<open>end > start\<close> and as \<open>text\<close> the substring of the input from
  \<open>start\<close> to \<open>end\<close>, and the nodes \<open>processTextNode\<close> puts in the place of the text node
  (plain fragments and markers) have the original text as their joint text content.
\<close>

theorem findMatches_well_formed:
  assumes "exec_ok exec"
    and "\<forall>d\<in>set definitions. \<forall>p\<in>set (triggers d). never_empty exec p"
  shows "\<exists>ms nodes. findMatches exec definitions s = Some ms
           \<and> (\<forall>m\<in>set ms. well_formed s m)
           \<and> processTextNode exec definitions path s = Some nodes
           \<and> concat (map textContent nodes) = s"
  using findMatches_total[OF assms, of s] processTextNode_text[OF assms, of path s] by blast

theorem findMatches_well_formed_witness:
  "exec_ok rx_exec
   \<and> (\<exists>ms nodes. findMatches rx_exec DEFAULT_TOOLTIP_DEFINITIONS ''x = std::move(y);'' = Some ms
         \<and> map (\<lambda>m. (start m, end_m m, length_m m, text_m m)) ms = [(4, 13, 9, ''std::move'')]
         \<and> well_formed ''x = std::move(y);'' (hd ms)
         \<and> processTextNode rx_exec DEFAULT_TOOLTIP_DEFINITIONS [(''P'', [])] ''x = std::move(y);'' = Some nodes
         \<and> map textContent nodes = [''x = '', ''std::move'', ''(y);'']
         \<and> concat (map textContent nodes) = ''x = std::move(y);'')"
proof -
  have ne: "\<forall>d\<in>set DEFAULT_TOOLTIP_DEFINITIONS. \<forall>p\<in>set (triggers d). never_empty rx_exec p"
    using default_triggers_have_lit rx_exec_never_empty by blast
  from findMatches_well_formed[OF rx_exec_ok ne, of "''x = std::move(y);''" "[(''P'', [])]"]
  obtain ms nodes where
    ms: "findMatches rx_exec DEFAULT_TOOLTIP_DEFINITIONS ''x = std::move(y);'' = Some ms"
    and wf: "\<forall>m\<in>set ms. well_formed ''x = std::move(y);'' m"
    and nodes: "processTextNode rx_exec DEFAULT_TOOLTIP_DEFINITIONS [(''P'', [])] ''x = std::move(y);'' = Some nodes"
    and tc: "concat (map textContent nodes) = ''x = std::move(y);''"
    by blast
  have "map_option (map (\<lambda>m. (start m, end_m m, length_m m, text_m m)))
          (findMatches rx_exec DEFAULT_TOOLTIP_DEFINITIONS ''x = std::move(y);'')
        = Some [(4, 13, 9, ''std::move'')]"
    by code_simp
  with ms have vals: "map (\<lambda>m. (start m, end_m m, length_m m, text_m m)) ms = [(4, 13, 9, ''std::move'')]"
    by simp
  then have "ms \<noteq> []" by auto
  with wf have hd: "well_formed ''x = std::move(y);'' (hd ms)" by simp
  have "map_option (map textContent)
          (processTextNode rx_exec DEFAULT_TOOLTIP_DEFINITIONS [(''P'', [])] ''x = std::move(y);'')
        = Some [''x = '', ''std::move'', ''(y);'']"
    by code_simp
  with nodes have frag: "map textContent nodes = [''x = '', ''std::move'', ''(y);'']" by simp
  from rx_exec_ok ms vals hd nodes frag tc show ?thesis
    by (intro conjI exI[of _ ms] exI[of _ nodes]) simp_all
qed

text \<open>
  Claim C2, as the code has it. \<open>definitionMap.set\<close> replaces an earlier entry of the same
  key, so a lookup by id gives the definition registered last under that id; the earlier
  ones are shadowed.
\<close>

theorem definitionMap_gives_last:
  "definitionMap definitions i = find (\<lambda>d. def_id d = i) (rev definitions)"
  by (rule definitionMap_find)

theorem definitionMap_gives_last_witness:
  "definitionMap DEFAULT_TOOLTIP_DEFINITIONS ''decltype'' = Some tip_decltype_later
   \<and> find (\<lambda>d. def_id d = ''decltype'') (rev DEFAULT_TOOLTIP_DEFINITIONS) = Some tip_decltype_later"
proof -
  have "find (\<lambda>d. def_id d = ''decltype'') (rev DEFAULT_TOOLTIP_DEFINITIONS) = Some tip_decltype_later"
    by code_simp
  with definitionMap_gives_last[of DEFAULT_TOOLTIP_DEFINITIONS "''decltype''"] show ?thesis by simp
qed

text \<open>The claim as it stands fails on the default definitions: two of them have the id
  \<open>decltype\<close>, the first registered is \<open>tip_decltype\<close>, and the lookup gives the later one,
  whose body is another.\<close>

theorem definitionMap_first_counterexample:
  "find (\<lambda>d. def_id d = ''decltype'') DEFAULT_TOOLTIP_DEFINITIONS = Some tip_decltype
   \<and> definitionMap DEFAULT_TOOLTIP_DEFINITIONS ''decltype'' = Some tip_decltype_later
   \<and> body tip_decltype_later \<noteq> body tip_decltype"
proof -
  have 1: "find (\<lambda>d. def_id d = ''decltype'') DEFAULT_TOOLTIP_DEFINITIONS = Some tip_decltype"
    by code_simp
  have "find (\<lambda>d. def_id d = ''decltype'') (rev DEFAULT_TOOLTIP_DEFINITIONS) = Some tip_decltype_later"
    by code_simp
  then have 2: "definitionMap DEFAULT_TOOLTIP_DEFINITIONS ''decltype'' = Some tip_decltype_later"
    by (simp add: definitionMap_find)
  have 3: "body tip_decltype_later \<noteq> body tip_decltype"
    by (simp add: tip_decltype_later_def tip_decltype_def tip_decltype_later_body_def tip_decltype_body_def)
  from 1 2 3 show ?thesis by simp
qed

section \<open>The content loader: retries and the fallback\<close>

lemma failing_iff:
  "failing r \<longleftrightarrow>
     (case r of NetworkError message \<Rightarrow> True
      | Response ok status statusText responseText \<Rightarrow> \<not> ok \<or> trim responseText = [])"
  by (simp add: failing_def read_response_def split: fetch_result.splits)

lemma failing_read: "failing r \<Longrightarrow> read_response r = Inl (error_message r)"
  by (cases "read_response r") (simp_all add: failing_def error_message_def)

lemma fetchContent_retry:
  assumes "failing (net (length (requests w)) (content_url cfg tabId))"
    and "retries_of w tabId < retryAttempts cfg"
  shows "fetchContent cfg net tabId w =
           fetchContent cfg net tabId
             (w\<lparr>requests := requests w @ [content_url cfg tabId],
                retryCount := (retryCount w)(tabId \<mapsto> retries_of w tabId + 1),
                clock := clock w + retryDelay cfg * int (retries_of w tabId + 1)\<rparr>)"
  using assms by (subst fetchContent.simps) (simp add: Let_def failing_read)

lemma fetchContent_give_up:
  assumes "failing (net (length (requests w)) (content_url cfg tabId))"
    and "\<not> retries_of w tabId < retryAttempts cfg"
  shows "fetchContent cfg net tabId w =
           (Inr (getFallbackContent cfg tabId
                   (error_message (net (length (requests w)) (content_url cfg tabId)))),
            w\<lparr>requests := requests w @ [content_url cfg tabId]\<rparr>)"
  using assms by (subst fetchContent.simps) (simp add: Let_def failing_read)

lemma fetchContent_success:
  assumes "read_response (net (length (requests w)) (content_url cfg tabId)) = Inr c"
  shows "fetchContent cfg net tabId w = (Inr c, w\<lparr>requests := requests w @ [content_url cfg tabId]\<rparr>)"
  using assms by (subst fetchContent.simps) (simp add: Let_def)

lemma fetchContent_failing:
  assumes fail: "\<forall>n u. failing (net n u)"
  shows "retryAttempts cfg - retries_of w tabId = n \<Longrightarrow>
         fetchContent cfg net tabId w =
           (Inr (getFallbackContent cfg tabId
                   (error_message (net (length (requests w) + n) (content_url cfg tabId)))),
            w\<lparr>requests := requests w @ replicate (Suc n) (content_url cfg tabId),
               retryCount := (retryCount w)
                 (tabId := if n = 0 then retryCount w tabId else Some (retryAttempts cfg)),
               clock := clock w + retryDelay cfg * int (\<Sum>i = retries_of w tabId..<retries_of w tabId + n. Suc i)\<rparr>)"
proof (induction n arbitrary: w)
  case 0
  then have "\<not> retries_of w tabId < retryAttempts cfg" by simp
  from fetchContent_give_up[OF _ this] fail show ?case by simp
next
  case (Suc n)
  let ?url = "content_url cfg tabId"
  let ?r = "retries_of w tabId"
  let ?w = "w\<lparr>requests := requests w @ [?url],
                retryCount := (retryCount w)(tabId \<mapsto> ?r + 1),
                clock := clock w + retryDelay cfg * int (?r + 1)\<rparr>"
  from Suc.prems have lt: "?r < retryAttempts cfg" by simp
  have r': "retries_of ?w tabId = ?r + 1" by (simp add: retries_of_def)
  with Suc.prems have n: "retryAttempts cfg - retries_of ?w tabId = n" by simp
  have top: "retryAttempts cfg = ?r + Suc n" using Suc.prems by simp
  have sum: "(\<Sum>i = ?r..<?r + Suc n. Suc i) = Suc ?r + (\<Sum>i = Suc ?r..<Suc ?r + n. Suc i)"
    by (simp add: sum.atLeast_Suc_lessThan)
  have "fetchContent cfg net tabId w = fetchContent cfg net tabId ?w"
    using fetchContent_retry[OF _ lt] fail by simp
  also have "\<dots> = (Inr (getFallbackContent cfg tabId
                   (error_message (net (length (requests ?w) + n) ?url))),
            ?w\<lparr>requests := requests ?w @ replicate (Suc n) ?url,
               retryCount := (retryCount ?w)
                 (tabId := if n = 0 then retryCount ?w tabId else Some (retryAttempts cfg)),
               clock := clock ?w + retryDelay cfg * int (\<Sum>i = retries_of ?w tabId..<retries_of ?w tabId + n. Suc i)\<rparr>)"
    by (rule Suc.IH[OF n])
  also have "\<dots> = (Inr (getFallbackContent cfg tabId
                   (error_message (net (length (requests w) + Suc n) ?url))),
            w\<lparr>requests := requests w @ replicate (Suc (Suc n)) ?url,
               retryCount := (retryCount w)(tabId \<mapsto> retryAttempts cfg),
               clock := clock w + retryDelay cfg * int (\<Sum>i = ?r..<?r + Suc n. Suc i)\<rparr>)"
    unfolding r' sum using top by (auto simp add: replicate_append_same algebra_simps)
  finally show ?case by (simp add: fun_upd_def)
qed

lemma fetchContent_frame:
  "cache (snd (fetchContent cfg net tabId w)) = cache w
   \<and> loadingPromises (snd (fetchContent cfg net tabId w)) = loadingPromises w
   \<and> promises (snd (fetchContent cfg net tabId w)) = promises w
   \<and> emitted (snd (fetchContent cfg net tabId w)) = emitted w
   \<and> length (requests w) < length (requests (snd (fetchContent cfg net tabId w)))
   \<and> (\<exists>c. fst (fetchContent cfg net tabId w) = Inr c)"
proof (induction cfg net tabId w rule: fetchContent.induct)
  case (1 cfg net tabId w)
  let ?url = "content_url cfg tabId"
  let ?resp = "net (length (requests w)) ?url"
  show ?case
  proof (cases "read_response ?resp")
    case (Inr c)
    from fetchContent_success[where net = net and w = w and cfg = cfg and tabId = tabId, OF Inr]
    show ?thesis by simp
  next
    case (Inl message)
    then have fail: "failing ?resp" by (simp add: failing_def)
    show ?thesis
    proof (cases "retries_of w tabId < retryAttempts cfg")
      case True
      from "1.IH"[OF refl refl refl refl Inl True]
        fetchContent_retry[where net = net and w = w and cfg = cfg and tabId = tabId, OF fail True]
      show ?thesis by auto
    next
      case False
      from fetchContent_give_up[where net = net and w = w and cfg = cfg and tabId = tabId, OF fail False]
      show ?thesis by simp
    qed
  qed
qed

lemma loadContent_hit:
  "cache_read cfg useCache w tabId = Some c \<Longrightarrow> loadContent cfg net tabId useCache w = (Returned c, w)"
  by (simp add: loadContent_def)

lemma loadContent_join:
  "cache_read cfg useCache w tabId = None \<Longrightarrow> loadingPromises w tabId = Some p \<Longrightarrow>
   loadContent cfg net tabId useCache w = (Pending p, w)"
  by (simp add: loadContent_def)

lemma loadContent_fetch:
  assumes "cache_read cfg useCache w tabId = None" and "loadingPromises w tabId = None"
  shows "loadContent cfg net tabId useCache w =
     after_load tabId
       (fst (fetchContent cfg net tabId
               (w\<lparr>promises := promises w + 1,
                  loadingPromises := (loadingPromises w)(tabId \<mapsto> promises w)\<rparr>)))
       (snd (fetchContent cfg net tabId
               (w\<lparr>promises := promises w + 1,
                  loadingPromises := (loadingPromises w)(tabId \<mapsto> promises w)\<rparr>)))"
  using assms by (simp add: loadContent_def Let_def)

lemma cache_read_iff:
  "cache_read cfg True w tabId = Some c \<longleftrightarrow>
     (\<exists>e. cache w tabId = Some e \<and> content e = c \<and> clock w - timestamp e < cacheTimeout cfg)"
  by (auto simp: cache_read_def split: option.splits)

lemma cache_read_stale:
  "cache w tabId = Some e \<Longrightarrow> \<not> clock w - timestamp e < cacheTimeout cfg \<Longrightarrow>
   cache_read cfg useCache w tabId = None"
  by (simp add: cache_read_def)

lemma loadContent_stores:
  assumes miss: "cache_read cfg useCache w tabId = None" and idle: "loadingPromises w tabId = None"
  shows "\<exists>c w'. loadContent cfg net tabId useCache w = (Returned c, w')
           \<and> cache w' tabId = Some \<lparr> content = c, timestamp = clock w' \<rparr>
           \<and> length (requests w) < length (requests w')"
proof -
  let ?w1 = "w\<lparr>promises := promises w + 1,
                loadingPromises := (loadingPromises w)(tabId \<mapsto> promises w)\<rparr>"
  from fetchContent_frame[of cfg net tabId ?w1] obtain c where
    c: "fst (fetchContent cfg net tabId ?w1) = Inr c"
    and len: "length (requests ?w1) < length (requests (snd (fetchContent cfg net tabId ?w1)))"
    by blast
  show ?thesis
    unfolding loadContent_fetch[OF miss idle] using c len
    by (simp add: after_load_def)
qed

lemma loadContent_failing:
  assumes fail: "\<forall>n u. failing (net n u)"
    and miss: "cache_read cfg useCache w tabId = None" and idle: "loadingPromises w tabId = None"
  shows "\<exists>w'. loadContent cfg net tabId useCache w =
           (Returned (getFallbackContent cfg tabId
              (error_message (net (length (requests w) + (retryAttempts cfg - retries_of w tabId))
                                  (content_url cfg tabId)))), w')
         \<and> cache w' tabId =
             Some \<lparr> content = getFallbackContent cfg tabId
                      (error_message (net (length (requests w) + (retryAttempts cfg - retries_of w tabId))
                                  (content_url cfg tabId))),
                    timestamp = clock w' \<rparr>
         \<and> requests w' = requests w @ replicate (Suc (retryAttempts cfg - retries_of w tabId)) (content_url cfg tabId)
         \<and> retryCount w' tabId = None \<and> loadingPromises w' tabId = None
         \<and> clock w' = clock w + retryDelay cfg
               * int (\<Sum>i = retries_of w tabId..<retries_of w tabId + (retryAttempts cfg - retries_of w tabId). Suc i)"
proof -
  let ?w1 = "w\<lparr>promises := promises w + 1,
                loadingPromises := (loadingPromises w)(tabId \<mapsto> promises w)\<rparr>"
  have r: "retries_of ?w1 tabId = retries_of w tabId" by (simp add: retries_of_def)
  from fetchContent_failing[OF fail, of cfg ?w1 tabId "retryAttempts cfg - retries_of w tabId"] r
  show ?thesis
    unfolding loadContent_fetch[OF miss idle]
    by (simp add: after_load_def)
qed

lemma loadContent_cached_again:
  assumes "cache w tabId = Some \<lparr> content = c, timestamp = clock w \<rparr>" and "0 < cacheTimeout cfg"
  shows "loadContent cfg net tabId True w = (Returned c, w)"
  using assms by (simp add: loadContent_def cache_read_def)

lemma find_None_iff_ids: "find (\<lambda>tab. entry_id tab = tabId) config = None \<longleftrightarrow> tabId \<notin> set (map entry_id config)"
  by (induction config) auto

lemma app_loadContent_dom:
  assumes "dom (contentCache app) \<subseteq> set (map entry_id config)"
  shows "dom (contentCache (snd (app_loadContent config net tabId app))) \<subseteq> set (map entry_id config)"
proof (cases "find (\<lambda>tab. entry_id tab = tabId) config")
  case None
  with assms show ?thesis by (simp add: app_loadContent_def split: option.splits)
next
  case (Some tabConfig)
  then have "tabId \<in> set (map entry_id config)"
    using find_None_iff_ids[of tabId config] by auto
  with assms Some show ?thesis
    by (auto simp: app_loadContent_def Let_def split: option.splits fetch_result.splits if_splits)
qed

lemma app_loads_dom:
  "dom (contentCache app) \<subseteq> set (map entry_id config) \<Longrightarrow>
   dom (contentCache (app_loads config net tabIds app)) \<subseteq> set (map entry_id config)"
proof (induction tabIds arbitrary: app)
  case Nil
  then show ?case by (simp add: app_loads_def)
next
  case (Cons tabId tabIds)
  from Cons.IH[OF app_loadContent_dom[OF Cons.prems, of net tabId]]
  show ?case by (simp add: app_loads_def)
qed

lemma app_loadContent_unknown:
  assumes "tabId \<notin> set (map entry_id config)"
  shows "app_loadContent config net tabId (app_loads config net tabIds new_app) =
           (Inl (''Tab configuration not found for: '' @ tabId), app_loads config net tabIds new_app)"
proof -
  have "dom (contentCache (app_loads config net tabIds new_app)) \<subseteq> set (map entry_id config)"
    by (rule app_loads_dom) (simp add: new_app_def)
  with assms have "contentCache (app_loads config net tabIds new_app) tabId = None" by blast
  moreover from assms have "find (\<lambda>tab. entry_id tab = tabId) config = None"
    by (simp add: find_None_iff_ids)
  ultimately show ?thesis by (simp add: app_loadContent_def)
qed

lemma offline_failing: "\<forall>n u. failing (offline n u)"
  by (simp add: failing_iff offline_def)

lemma blank_pages_failing: "\<forall>n u. failing (blank_pages n u)"
  by (simp add: failing_iff blank_pages_def trim_def is_space_def)

lemma new_loader_miss: "cache_read cfg useCache (new_loader t) tabId = None"
  by (simp add: cache_read_def new_loader_def)

lemma no_such_entry: "''no-such-tab'' \<notin> set (map entry_id tabsConfig)"
  by (simp add: tabsConfig_def)

lemma no_such_tab: "''no-such-tab'' \<notin> set (map tab_id (tabs APP_CONFIG))"
  by (simp add: APP_CONFIG_def)

section \<open>The content loader: the claims\<close>

text \<open>
  Claim C1 against the code. When the network fails for good, \<open>loadContent\<close> returns the
  fallback document, and stores it in the cache like any content: \<open>_fetchContent\<close>
  returns the fallback as its result, and \<open>loadContent\<close> caches every result (under the
  comment \<open>Cache successful result\<close>). A load of the same key that follows gets the
  fallback from the cache, whatever the network would answer by then.
\<close>

theorem loadContent_caches_fallback:
  assumes "\<forall>n u. failing (net n u)"
    and "cache_read cfg useCache w tabId = None"
    and "loadingPromises w tabId = None"
    and "0 < cacheTimeout cfg"
  shows "\<exists>fallback w'.
           loadContent cfg net tabId useCache w = (Returned fallback, w')
         \<and> fallback = getFallbackContent cfg tabId
              (error_message (net (length (requests w) + (retryAttempts cfg - retries_of w tabId))
                                  (content_url cfg tabId)))
         \<and> cache w' tabId = Some \<lparr> content = fallback, timestamp = clock w' \<rparr>
         \<and> (\<forall>net'. loadContent cfg net' tabId True w' = (Returned fallback, w'))"
proof -
  from loadContent_failing[OF assms(1-3)] obtain w' where
    l: "loadContent cfg net tabId useCache w =
           (Returned (getFallbackContent cfg tabId
              (error_message (net (length (requests w) + (retryAttempts cfg - retries_of w tabId))
                                  (content_url cfg tabId)))), w')"
    and c: "cache w' tabId =
             Some \<lparr> content = getFallbackContent cfg tabId
                      (error_message (net (length (requests w) + (retryAttempts cfg - retries_of w tabId))
                                  (content_url cfg tabId))),
                    timestamp = clock w' \<rparr>"
    by blast
  from loadContent_cached_again[OF c assms(4)] l c show ?thesis by blast
qed

theorem loadContent_caches_fallback_witness:
  "\<exists>w'. loadContent APP_CONFIG offline ''vector'' True (new_loader 0)
            = (Returned (getFallbackContent APP_CONFIG ''vector'' ''Failed to fetch''), w')
      \<and> cache w' ''vector''
            = Some \<lparr> content = getFallbackContent APP_CONFIG ''vector'' ''Failed to fetch'',
                     timestamp = clock w' \<rparr>
      \<and> loadContent APP_CONFIG online ''vector'' True w'
            = (Returned (getFallbackContent APP_CONFIG ''vector'' ''Failed to fetch''), w')"
proof -
  have idle: "loadingPromises (new_loader 0) ''vector'' = None" by (simp add: new_loader_def)
  have ttl: "0 < cacheTimeout APP_CONFIG" by (simp add: APP_CONFIG_def)
  have msg: "error_message (offline n u) = ''Failed to fetch''" for n u
    by (simp add: error_message_def offline_def read_response_def)
  from loadContent_caches_fallback[OF offline_failing new_loader_miss idle ttl, of True]
  show ?thesis unfolding msg by blast
qed

text \<open>
  Claim C3, as the code has it. The controller's own loader, \<open>CPPGuideApp.loadContent\<close>,
  fails at once for a key that its tab list does not have, with the error
  \<open>Tab configuration not found for: key\<close> and without a request, in every state the
  controller reaches by its loads. The content loader does not look the key up before
  it fetches: for a key that \<open>APP_CONFIG.tabs\<close> does not have, a failing network is
  retried and the fallback document is returned as for any other key.
\<close>

theorem unknown_key_handling:
  "(tabId \<notin> set (map entry_id config) \<longrightarrow>
      app_loadContent config net tabId (app_loads config net tabIds new_app) =
        (Inl (''Tab configuration not found for: '' @ tabId), app_loads config net tabIds new_app))
   \<and> (tabId \<notin> set (map tab_id (tabs cfg)) \<and> (\<forall>n u. failing (net' n u))
        \<and> cache_read cfg useCache w tabId = None \<and> loadingPromises w tabId = None \<longrightarrow>
        fst (loadContent cfg net' tabId useCache w) =
          Returned (getFallbackContent cfg tabId
             (error_message (net' (length (requests w) + (retryAttempts cfg - retries_of w tabId))
                                 (content_url cfg tabId))))
      \<and> requests (snd (loadContent cfg net' tabId useCache w)) =
          requests w @ replicate (Suc (retryAttempts cfg - retries_of w tabId)) (content_url cfg tabId))"
proof (intro conjI impI)
  assume "tabId \<notin> set (map entry_id config)"
  then show "app_loadContent config net tabId (app_loads config net tabIds new_app) =
        (Inl (''Tab configuration not found for: '' @ tabId), app_loads config net tabIds new_app)"
    by (rule app_loadContent_unknown)
next
  assume a: "tabId \<notin> set (map tab_id (tabs cfg)) \<and> (\<forall>n u. failing (net' n u))
        \<and> cache_read cfg useCache w tabId = None \<and> loadingPromises w tabId = None"
  then have f: "\<forall>n u. failing (net' n u)" and m: "cache_read cfg useCache w tabId = None"
    and i: "loadingPromises w tabId = None" by blast+
  from loadContent_failing[OF f m i]
  show "fst (loadContent cfg net' tabId useCache w) =
          Returned (getFallbackContent cfg tabId
             (error_message (net' (length (requests w) + (retryAttempts cfg - retries_of w tabId))
                                 (content_url cfg tabId))))"
    by auto
  from loadContent_failing[OF f m i]
  show "requests (snd (loadContent cfg net' tabId useCache w)) =
          requests w @ replicate (Suc (retryAttempts cfg - retries_of w tabId)) (content_url cfg tabId)"
    by auto
qed

theorem unknown_key_handling_witness:
  "app_loadContent tabsConfig online ''no-such-tab'' (app_loads tabsConfig online [''vector'', ''map''] new_app)
     = (Inl ''Tab configuration not found for: no-such-tab'',
        app_loads tabsConfig online [''vector'', ''map''] new_app)
   \<and> app_requests (app_loads tabsConfig online [''vector'', ''map''] new_app)
     = [''content/vector.html'', ''content/map.html'']
   \<and> fst (loadContent APP_CONFIG blank_pages ''no-such-tab'' True (new_loader 0))
     = Returned (getFallbackContent APP_CONFIG ''no-such-tab'' ''Empty content received'')
   \<and> requests (snd (loadContent APP_CONFIG blank_pages ''no-such-tab'' True (new_loader 0)))
     = replicate 4 ''./content/no-such-tab.html''"
proof -
  have idle: "loadingPromises (new_loader 0) ''no-such-tab'' = None" by (simp add: new_loader_def)
  have msg: "error_message (blank_pages k u) = ''Empty content received''" for k u
    by (simp add: error_message_def blank_pages_def read_response_def trim_def is_space_def)
  have url: "content_url APP_CONFIG ''no-such-tab'' = ''./content/no-such-tab.html''"
    by (simp add: content_url_def APP_CONFIG_def)
  have n: "retryAttempts APP_CONFIG - retries_of (new_loader 0) ''no-such-tab'' = 3"
    by (simp add: APP_CONFIG_def retries_of_def new_loader_def)
  have init: "requests (new_loader 0) = []" by (simp add: new_loader_def)
  have reqs: "app_requests (app_loads tabsConfig online [''vector'', ''map''] new_app)
     = [''content/vector.html'', ''content/map.html'']"
    by (simp add: app_loads_def app_loadContent_def new_app_def tabsConfig_def online_def Let_def)
  from unknown_key_handling[where tabId = "''no-such-tab''" and config = tabsConfig and net = online
      and tabIds = "[''vector'', ''map'']" and cfg = APP_CONFIG and net' = blank_pages
      and useCache = True and w = "new_loader 0"]
    no_such_entry no_such_tab blank_pages_failing new_loader_miss[of APP_CONFIG True 0 "''no-such-tab''"] idle reqs
  show ?thesis unfolding msg url n init by (simp add: eval_nat_numeral)
qed

text \<open>The claim as it stands fails on the content loader: the key \<open>no-such-tab\<close> is not
  configured, and with the network down its load makes four requests and returns the
  fallback document instead of failing.\<close>

theorem unknown_key_not_hard_failure_counterexample:
  "''no-such-tab'' \<notin> set (map tab_id (tabs APP_CONFIG))
   \<and> fst (loadContent APP_CONFIG offline ''no-such-tab'' True (new_loader 0))
     = Returned (getFallbackContent APP_CONFIG ''no-such-tab'' ''Failed to fetch'')
   \<and> requests (snd (loadContent APP_CONFIG offline ''no-such-tab'' True (new_loader 0)))
     = [''./content/no-such-tab.html'', ''./content/no-such-tab.html'',
        ''./content/no-such-tab.html'', ''./content/no-such-tab.html'']"
proof -
  have idle: "loadingPromises (new_loader 0) ''no-such-tab'' = None" by (simp add: new_loader_def)
  have msg: "error_message (offline k u) = ''Failed to fetch''" for k u
    by (simp add: error_message_def offline_def read_response_def)
  have url: "content_url APP_CONFIG ''no-such-tab'' = ''./content/no-such-tab.html''"
    by (simp add: content_url_def APP_CONFIG_def)
  have n: "retryAttempts APP_CONFIG - retries_of (new_loader 0) ''no-such-tab'' = 3"
    by (simp add: APP_CONFIG_def retries_of_def new_loader_def)
  have init: "requests (new_loader 0) = []" by (simp add: new_loader_def)
  from loadContent_failing[where cfg = APP_CONFIG and useCache = True and w = "new_loader 0"
      and tabId = "''no-such-tab''", OF offline_failing new_loader_miss idle]
    no_such_tab
  show ?thesis unfolding msg url n init by (auto simp: eval_nat_numeral)
qed

text \<open>
  Claim C7. The cache read of \<open>loadContent\<close> gives stored content exactly when the key has
  an entry and the clock minus its timestamp is below the timeout. A load whose cache read
  gives content returns it and leaves the state as it is, so no request is made. A stale
  entry reads as absent; no read removes it: it is still stored while \<open>_fetchContent\<close>
  runs and when the caller is handed a load in flight, and the store at the end of the load
  replaces it.
\<close>

theorem cache_read_ttl:
  "(cache_read cfg True w tabId = Some c \<longleftrightarrow>
      (\<exists>e. cache w tabId = Some e \<and> content e = c \<and> clock w - timestamp e < cacheTimeout cfg))
   \<and> (cache_read cfg useCache w tabId = Some c \<longrightarrow>
        loadContent cfg net tabId useCache w = (Returned c, w))
   \<and> (cache w tabId = Some e \<and> \<not> clock w - timestamp e < cacheTimeout cfg \<longrightarrow>
        cache_read cfg True w tabId = None
      \<and> cache (snd (fetchContent cfg net tabId w)) tabId = Some e
      \<and> (\<forall>p. loadingPromises w tabId = Some p \<longrightarrow>
             loadContent cfg net tabId True w = (Pending p, w))
      \<and> (loadingPromises w tabId = None \<longrightarrow>
            (\<exists>c' w'. loadContent cfg net tabId True w = (Returned c', w')
               \<and> cache w' tabId = Some \<lparr> content = c', timestamp = clock w' \<rparr>
               \<and> length (requests w) < length (requests w'))))"
proof (intro conjI impI allI)
  show "cache_read cfg True w tabId = Some c \<longleftrightarrow>
      (\<exists>e. cache w tabId = Some e \<and> content e = c \<and> clock w - timestamp e < cacheTimeout cfg)"
    by (rule cache_read_iff)
next
  assume "cache_read cfg useCache w tabId = Some c"
  then show "loadContent cfg net tabId useCache w = (Returned c, w)" by (rule loadContent_hit)
next
  assume stale: "cache w tabId = Some e \<and> \<not> clock w - timestamp e < cacheTimeout cfg"
  then show miss: "cache_read cfg True w tabId = None" by (simp add: cache_read_stale)
  from stale fetchContent_frame[of cfg net tabId w]
  show "cache (snd (fetchContent cfg net tabId w)) tabId = Some e" by simp
  {
    fix p assume "loadingPromises w tabId = Some p"
    with miss show "loadContent cfg net tabId True w = (Pending p, w)" by (simp add: loadContent_join)
  }
  {
    assume "loadingPromises w tabId = None"
    from loadContent_stores[OF miss this]
    show "\<exists>c' w'. loadContent cfg net tabId True w = (Returned c', w')
               \<and> cache w' tabId = Some \<lparr> content = c', timestamp = clock w' \<rparr>
               \<and> length (requests w) < length (requests w')" .
  }
qed

theorem cache_read_ttl_witness:
  "cache_read APP_CONFIG True
      ((new_loader 1000)\<lparr>cache := [''vector'' \<mapsto> \<lparr> content = ''<h2>vector</h2>'', timestamp = 0 \<rparr>]\<rparr>)
      ''vector'' = Some ''<h2>vector</h2>''
   \<and> loadContent APP_CONFIG offline ''vector'' True
      ((new_loader 1000)\<lparr>cache := [''vector'' \<mapsto> \<lparr> content = ''<h2>vector</h2>'', timestamp = 0 \<rparr>]\<rparr>)
     = (Returned ''<h2>vector</h2>'',
        (new_loader 1000)\<lparr>cache := [''vector'' \<mapsto> \<lparr> content = ''<h2>vector</h2>'', timestamp = 0 \<rparr>]\<rparr>)
   \<and> cache_read APP_CONFIG True
      ((new_loader 300000)\<lparr>cache := [''vector'' \<mapsto> \<lparr> content = ''<h2>vector</h2>'', timestamp = 0 \<rparr>]\<rparr>)
      ''vector'' = None
   \<and> (\<exists>c' w'. loadContent APP_CONFIG online ''vector'' True
      ((new_loader 300000)\<lparr>cache := [''vector'' \<mapsto> \<lparr> content = ''<h2>vector</h2>'', timestamp = 0 \<rparr>]\<rparr>)
        = (Returned c', w')
      \<and> cache w' ''vector'' = Some \<lparr> content = c', timestamp = clock w' \<rparr>)"
proof -
  let ?e = "\<lparr> content = ''<h2>vector</h2>'', timestamp = 0 \<rparr>"
  let ?fresh = "(new_loader 1000)\<lparr>cache := [''vector'' \<mapsto> ?e]\<rparr>"
  let ?stale = "(new_loader 300000)\<lparr>cache := [''vector'' \<mapsto> ?e]\<rparr>"
  have ttl: "cacheTimeout APP_CONFIG = 300000" by (simp add: APP_CONFIG_def)
  have fresh: "cache ?fresh ''vector'' = Some ?e \<and> content ?e = ''<h2>vector</h2>''
      \<and> clock ?fresh - timestamp ?e < cacheTimeout APP_CONFIG"
    by (simp add: new_loader_def ttl)
  have stale: "cache ?stale ''vector'' = Some ?e \<and> \<not> clock ?stale - timestamp ?e < cacheTimeout APP_CONFIG"
    by (simp add: new_loader_def ttl)
  have idle: "loadingPromises ?stale ''vector'' = None" by (simp add: new_loader_def)
  from cache_read_ttl[of APP_CONFIG ?fresh "''vector''" "''<h2>vector</h2>''" True offline ?e] fresh
  have 1: "cache_read APP_CONFIG True ?fresh ''vector'' = Some ''<h2>vector</h2>''"
    and 2: "loadContent APP_CONFIG offline ''vector'' True ?fresh = (Returned ''<h2>vector</h2>'', ?fresh)"
    by blast+
  from cache_read_ttl[of APP_CONFIG ?stale "''vector''" "''<h2>vector</h2>''" True online ?e] stale idle
  have 3: "cache_read APP_CONFIG True ?stale ''vector'' = None"
    and 4: "\<exists>c' w'. loadContent APP_CONFIG online ''vector'' True ?stale = (Returned c', w')
      \<and> cache w' ''vector'' = Some \<lparr> content = c', timestamp = clock w' \<rparr>"
    by blast+
  from 1 2 3 4 show ?thesis by (intro conjI)
qed

section \<open>The term annotator: what \<open>decorate\<close> leaves alone\<close>

lemma guarded_Cons:
  "guarded ((tagName, classList) # path) \<longleftrightarrow> is_marker classList \<or> is_popover classList \<or> guarded path"
  by (auto simp: guarded_def closest_def is_marker_def is_popover_def)

lemma inside_Cons:
  "inside_marker ((tagName, classList) # path) \<longleftrightarrow> inside_marker path \<or> is_marker classList"
  by (auto simp: inside_marker_def closest_def is_marker_def)

lemma shouldProcessNode_guarded: "guarded path \<Longrightarrow> \<not> shouldProcessNode path s"
  unfolding shouldProcessNode_def guarded_def by (cases path) simp_all

lemma shouldProcessNode_outside: "shouldProcessNode path s \<Longrightarrow> \<not> inside_marker path"
  using shouldProcessNode_guarded[of path s] by (auto simp: guarded_def inside_marker_def)

lemma decorate_guarded:
  "guarded path \<Longrightarrow> decorate_node exec definitions path n = Some [n]"
  "guarded path \<Longrightarrow> decorate_children exec definitions path ns = Some ns"
proof (induction exec definitions path n and exec definitions path ns
    rule: decorate_node_decorate_children.induct)
  case (1 exec definitions path s)
  then show ?case by (simp add: shouldProcessNode_guarded)
next
  case (2 exec definitions path tagName classList attrs childNodes)
  from "2.prems" have "guarded ((tagName, classList) # path)" by (simp add: guarded_Cons)
  from "2.IH"[OF this] show ?case by simp
next
  case (3 exec definitions path)
  then show ?case by simp
next
  case (4 exec definitions path child rest)
  from "4.IH"(1)[OF "4.prems"] have 1: "decorate_node exec definitions path child = Some [child]" .
  from "4.IH"(2)[OF 1 "4.prems"] 1 show ?case by simp
qed

lemma marker_is_whole:
  "nested_markers False (createTermNode m path) = 0
   \<and> protected_subtrees (createTermNode m path) = [createTermNode m path]"
  by (simp add: createTermNode_def is_marker_def)

lemma append_match_nodes:
  "\<forall>n\<in>set fragment. nested_markers False n = 0 \<Longrightarrow>
   \<forall>n\<in>set (fst (foldl (append_match s path) (fragment, lastIndex) ms)). nested_markers False n = 0"
proof (induction ms arbitrary: fragment lastIndex)
  case Nil
  then show ?case by simp
next
  case (Cons m ms)
  let ?acc = "append_match s path (fragment, lastIndex) m"
  have "\<forall>n\<in>set (fst ?acc). nested_markers False n = 0"
    using Cons.prems by (auto simp: append_match_def Let_def marker_is_whole)
  from Cons.IH[of "fst ?acc" "snd ?acc", OF this] show ?case by simp
qed

lemma processTextNode_nodes:
  assumes "processTextNode exec definitions path s = Some nodes"
  shows "\<forall>n\<in>set nodes. nested_markers False n = 0"
proof -
  have base: "\<forall>n\<in>set ([] :: node list). nested_markers False n = 0" by simp
  from assms show ?thesis
    using append_match_nodes[OF base, of s path 0]
    by (auto simp: processTextNode_def Let_def split: if_splits option.splits)
qed

lemma decorate_nested:
  "decorate_node exec definitions path n = Some new \<Longrightarrow>
     sum_list (map (nested_markers (inside_marker path)) new)
       = nested_markers (inside_marker path) n"
  "decorate_children exec definitions path ns = Some ns' \<Longrightarrow>
     sum_list (map (nested_markers (inside_marker path)) ns')
       = sum_list (map (nested_markers (inside_marker path)) ns)"
proof (induction exec definitions path n and exec definitions path ns arbitrary: new and ns'
    rule: decorate_node_decorate_children.induct)
  case (1 exec definitions path s)
  show ?case
  proof (cases "shouldProcessNode path s")
    case True
    then have out: "\<not> inside_marker path" by (rule shouldProcessNode_outside)
    from "1.prems" True have "processTextNode exec definitions path s = Some new" by simp
    from processTextNode_nodes[OF this] have "sum_list (map (nested_markers False) new) = 0"
      by (simp add: sum_list_eq_0_iff)
    with out show ?thesis by simp
  next
    case False
    with "1.prems" show ?thesis by auto
  qed
next
  case (2 exec definitions path tagName classList attrs childNodes)
  from "2.prems" obtain kids where
    kids: "decorate_children exec definitions ((tagName, classList) # path) childNodes = Some kids"
    and new: "new = [Element tagName classList attrs kids]"
    by (auto split: option.splits)
  from "2.IH"[OF kids] show ?case unfolding new by (simp add: inside_Cons)
next
  case (3 exec definitions path)
  then show ?case by simp
next
  case (4 exec definitions path child rest)
  from "4.prems" obtain a b where
    a: "decorate_node exec definitions path child = Some a"
    and b: "decorate_children exec definitions path rest = Some b"
    and ns': "ns' = a @ b"
    by (auto split: option.splits)
  from "4.IH"(1)[OF a] "4.IH"(2)[OF a b] show ?case unfolding ns' by simp
qed

lemma decorate_protected:
  "decorate_node exec definitions path n = Some new \<Longrightarrow>
     subseq (protected_subtrees n) (concat (map protected_subtrees new))"
  "decorate_children exec definitions path ns = Some ns' \<Longrightarrow>
     subseq (concat (map protected_subtrees ns)) (concat (map protected_subtrees ns'))"
proof (induction exec definitions path n and exec definitions path ns arbitrary: new and ns'
    rule: decorate_node_decorate_children.induct)
  case (1 exec definitions path s)
  then show ?case by simp
next
  case (2 exec definitions path tagName classList attrs childNodes)
  from "2.prems" obtain kids where
    kids: "decorate_children exec definitions ((tagName, classList) # path) childNodes = Some kids"
    and new: "new = [Element tagName classList attrs kids]"
    by (auto split: option.splits)
  show ?case
  proof (cases "is_marker classList \<or> is_popover classList")
    case True
    then have "guarded ((tagName, classList) # path)" unfolding guarded_Cons by blast
    from decorate_guarded(2)[OF this, of exec definitions childNodes] kids
    have "kids = childNodes" by simp
    with True show ?thesis unfolding new by simp
  next
    case False
    with "2.IH"[OF kids] show ?thesis unfolding new by simp
  qed
next
  case (3 exec definitions path)
  then show ?case by simp
next
  case (4 exec definitions path child rest)
  from "4.prems" obtain a b where
    a: "decorate_node exec definitions path child = Some a"
    and b: "decorate_children exec definitions path rest = Some b"
    and ns': "ns' = a @ b"
    by (auto split: option.splits)
  from "4.IH"(1)[OF a] "4.IH"(2)[OF a b] show ?case
    unfolding ns' by (simp add: list_emb_append_mono)
qed

lemma decorate_once:
  assumes "decorate exec definitions path n = Some n'"
  shows "subseq (protected_subtrees n) (protected_subtrees n')
       \<and> nested_markers (inside_marker path) n' = nested_markers (inside_marker path) n"
proof (cases n)
  case (TextNode s)
  with assms show ?thesis by (simp add: decorate_def)
next
  case (Element tagName classList attrs childNodes)
  with assms obtain kids where
    kids: "decorate_children exec definitions ((tagName, classList) # path) childNodes = Some kids"
    and n': "n' = Element tagName classList attrs kids"
    by (auto simp: decorate_def split: option.splits)
  have nest: "nested_markers (inside_marker path) n' = nested_markers (inside_marker path) n"
    using decorate_nested(2)[OF kids] unfolding n' Element by (simp add: inside_Cons)
  have "subseq (protected_subtrees n) (protected_subtrees n')"
  proof (cases "is_marker classList \<or> is_popover classList")
    case True
    then have "guarded ((tagName, classList) # path)" unfolding guarded_Cons by blast
    from decorate_guarded(2)[OF this, of exec definitions childNodes] kids
    have "kids = childNodes" by simp
    then show ?thesis unfolding n' Element by simp
  next
    case False
    with decorate_protected(2)[OF kids] show ?thesis unfolding n' Element by simp
  qed
  with nest show ?thesis by simp
qed

lemma decorate_total:
  "exec_ok exec \<Longrightarrow> \<forall>d\<in>set definitions. \<forall>p\<in>set (triggers d). never_empty exec p \<Longrightarrow>
     \<exists>new. decorate_node exec definitions path n = Some new"
  "exec_ok exec \<Longrightarrow> \<forall>d\<in>set definitions. \<forall>p\<in>set (triggers d). never_empty exec p \<Longrightarrow>
     \<exists>ns'. decorate_children exec definitions path ns = Some ns'"
proof (induction exec definitions path n and exec definitions path ns
    rule: decorate_node_decorate_children.induct)
  case (1 exec definitions path s)
  from processTextNode_text[OF "1.prems", where path = path and s = s] obtain nodes where
    "processTextNode exec definitions path s = Some nodes"
    and "concat (map textContent nodes) = s" by blast
  then show ?case by simp
next
  case (2 exec definitions path tagName classList attrs childNodes)
  from "2.IH"[OF "2.prems"] show ?case by auto
next
  case (3 exec definitions path)
  then show ?case by simp
next
  case (4 exec definitions path child rest)
  from "4.IH"(1)[OF "4.prems"] obtain a where
    a: "decorate_node exec definitions path child = Some a" by blast
  from "4.IH"(2)[OF a "4.prems"] a show ?case by auto
qed

lemma decorate_returns:
  assumes ok: "exec_ok exec"
    and ne: "\<forall>d\<in>set definitions. \<forall>p\<in>set (triggers d). never_empty exec p"
  shows "\<exists>n'. decorate exec definitions path n = Some n'"
proof (cases n)
  case (TextNode s)
  then show ?thesis by (simp add: decorate_def)
next
  case (Element tagName classList attrs childNodes)
  from decorate_total(2)[OF ok ne, where path = "(tagName, classList) # path" and ns = childNodes]
    Element
  show ?thesis by (auto simp: decorate_def)
qed

lemma sample_once: "decorate rx_exec DEFAULT_TOOLTIP_DEFINITIONS [] sample_root = Some sample_decorated"
  by code_simp

lemma sample_twice: "decorate rx_exec DEFAULT_TOOLTIP_DEFINITIONS [] sample_decorated = Some sample_decorated"
  by code_simp

section \<open>The term annotator: the claim\<close>

text \<open>
  Claim C9. Let \<open>decorate\<close> run on a root and then once more on the result. The second
  run changes nothing inside a marker or inside the popover: the outermost subtrees of
  the first result whose root is a marker or the popover are all found again, whole and
  in their order, in the second result. The count of markers that lie inside a marker
  is after the second run what it was in the root before the first: \<open>decorate\<close> produces
  no nested marker. Both runs do return when the engine keeps the contract of \<open>exec\<close> and
  no trigger matches the empty string.
\<close>

theorem decorate_twice_no_nesting:
  "(\<forall>once twice. decorate exec definitions path root = Some once
        \<and> decorate exec definitions path once = Some twice \<longrightarrow>
      subseq (protected_subtrees once) (protected_subtrees twice)
      \<and> nested_markers (inside_marker path) twice = nested_markers (inside_marker path) root)
   \<and> (exec_ok exec \<and> (\<forall>d\<in>set definitions. \<forall>p\<in>set (triggers d). never_empty exec p) \<longrightarrow>
        (\<exists>once twice. decorate exec definitions path root = Some once
           \<and> decorate exec definitions path once = Some twice))"
proof (intro conjI allI impI)
  fix once twice
  assume "decorate exec definitions path root = Some once
        \<and> decorate exec definitions path once = Some twice"
  then have 1: "decorate exec definitions path root = Some once"
    and 2: "decorate exec definitions path once = Some twice" by blast+
  from decorate_once[OF 2] show "subseq (protected_subtrees once) (protected_subtrees twice)"
    by simp
  from decorate_once[OF 1] decorate_once[OF 2]
  show "nested_markers (inside_marker path) twice = nested_markers (inside_marker path) root"
    by simp
next
  assume "exec_ok exec \<and> (\<forall>d\<in>set definitions. \<forall>p\<in>set (triggers d). never_empty exec p)"
  then have ok: "exec_ok exec"
    and ne: "\<forall>d\<in>set definitions. \<forall>p\<in>set (triggers d). never_empty exec p" by blast+
  from decorate_returns[OF ok ne] obtain once where
    1: "decorate exec definitions path root = Some once" by blast
  from decorate_returns[OF ok ne] obtain twice where
    "decorate exec definitions path once = Some twice" by blast
  with 1 show "\<exists>once twice. decorate exec definitions path root = Some once
           \<and> decorate exec definitions path once = Some twice" by blast
qed

theorem decorate_twice_no_nesting_witness:
  "decorate rx_exec DEFAULT_TOOLTIP_DEFINITIONS [] sample_root = Some sample_decorated
   \<and> decorate rx_exec DEFAULT_TOOLTIP_DEFINITIONS [] sample_decorated = Some sample_decorated
   \<and> length (protected_subtrees sample_decorated) = 2
   \<and> subseq (protected_subtrees sample_decorated) (protected_subtrees sample_decorated)
   \<and> nested_markers (inside_marker []) sample_decorated = 0"
proof -
  have n: "nested_markers (inside_marker []) sample_root = 0"
    by (simp add: sample_root_def is_marker_def)
  have l: "length (protected_subtrees sample_decorated) = 2"
    by (simp add: sample_decorated_def is_marker_def is_popover_def)
  from decorate_twice_no_nesting[of rx_exec DEFAULT_TOOLTIP_DEFINITIONS "[]" sample_root]
    sample_once sample_twice
  have "subseq (protected_subtrees sample_decorated) (protected_subtrees sample_decorated)
      \<and> nested_markers (inside_marker []) sample_decorated = nested_markers (inside_marker []) sample_root"
    by blast
  with sample_once sample_twice n l show ?thesis by simp
qed

section \<open>The loader on the event loop: one load per key\<close>

lemma loop_inv_new: "loop_inv (new_loop t)"
  by (simp add: loop_inv_def new_loop_def)

lemma loop_inv_load:
  assumes "loop_inv st"
  shows "loop_inv (snd (load_call cfg tabId useCache st))"
proof (cases "cache_read cfg useCache st tabId")
  case (Some c)
  with assms show ?thesis by (simp add: load_call_def)
next
  case None
  show ?thesis
  proof (cases "loadingPromises st tabId")
    case (Some p)
    with None assms show ?thesis by (simp add: load_call_def)
  next
    case idle: None
    from assms have ids: "\<forall>c\<in>set (chains st). fst c < promises st"
      and rids: "\<forall>r\<in>set (resolved st). fst r < promises st"
      by (auto simp: loop_inv_def)
    then have fresh: "promises st \<notin> fst ` set (chains st)" "promises st \<notin> fst ` set (resolved st)"
      by auto
    from assms idle have keys: "\<forall>c\<in>set (chains st). fst (snd c) \<noteq> tabId"
      and rkeys: "\<forall>r\<in>set (resolved st). fst (snd r) \<noteq> tabId"
      by (auto simp: loop_inv_def)
    from assms fresh keys rkeys ids rids None idle show ?thesis
      by (auto simp: loop_inv_def load_call_def Let_def less_Suc_eq)
  qed
qed

lemma find_Some_mem: "find P xs = Some x \<Longrightarrow> x \<in> set xs \<and> P x"
  by (induction xs) (auto split: if_splits)

lemma chain_of_Some:
  "chain_of p st = Some c \<Longrightarrow> c \<in> set (chains st) \<and> fst c = p"
  unfolding chain_of_def by (drule find_Some_mem) simp

lemma set_phase_chains:
  "map fst (chains (set_phase p ph st)) = map fst (chains st)"
  "map (\<lambda>c. fst (snd c)) (chains (set_phase p ph st)) = map (\<lambda>c. fst (snd c)) (chains st)"
  by (simp_all add: set_phase_def comp_def)

lemma loop_inv_set_phase:
  assumes "loop_inv st"
  shows "loop_inv (set_phase p ph st)"
proof -
  have "\<forall>c\<in>set (chains (set_phase p ph st)). \<exists>c'\<in>set (chains st). fst c = fst c' \<and> fst (snd c) = fst (snd c')"
    by (force simp: set_phase_def)
  moreover have "map fst (chains (set_phase p ph st)) = map fst (chains st)"
    by (simp add: set_phase_def comp_def)
  moreover have "resolved (set_phase p ph st) = resolved st" "promises (set_phase p ph st) = promises st"
    "loadingPromises (set_phase p ph st) = loadingPromises st"
    by (simp_all add: set_phase_def)
  ultimately show ?thesis using assms unfolding loop_inv_def by (metis (no_types, lifting))
qed

lemma loop_inv_frame:
  assumes "loop_inv st"
    and "chains st' = chains st" and "resolved st' = resolved st"
    and "promises st' = promises st" and "loadingPromises st' = loadingPromises st"
  shows "loop_inv st'"
  using assms by (simp add: loop_inv_def)

lemma distinct_move:
  assumes "distinct (map fst xs @ map fst ys)" and "c \<in> set xs" and "fst c = p"
  shows "distinct (map fst (filter (\<lambda>ch. fst ch \<noteq> p) xs) @ map fst (ys @ [(p, k, v)]))"
proof -
  from assms(1) have d: "distinct (map fst xs)" "distinct (map fst ys)"
    "fst ` set xs \<inter> fst ` set ys = {}" by auto
  from assms(2,3) d(3) have "p \<notin> fst ` set ys" by auto
  moreover have "p \<notin> fst ` set (filter (\<lambda>ch. fst ch \<noteq> p) xs)" by auto
  moreover have "distinct (map fst (filter (\<lambda>ch. fst ch \<noteq> p) xs))"
    using d(1) by (simp add: distinct_map_filter)
  moreover have "fst ` set (filter (\<lambda>ch. fst ch \<noteq> p) xs) \<inter> fst ` set ys = {}"
    using d(3) by auto
  ultimately show ?thesis using d(2) by auto
qed

lemma loop_inv_resolve:
  assumes inv: "loop_inv st" and c: "(p, tabId, ph) \<in> set (chains st)"
  shows "loop_inv (resolve p tabId v st)"
proof -
  from inv have d: "distinct (map fst (chains st) @ map fst (resolved st))" by (simp add: loop_inv_def)
  from distinct_move[OF d c, of p tabId v]
  have 1: "distinct (map fst (chains (resolve p tabId v st)) @ map fst (resolved (resolve p tabId v st)))"
    by (simp add: resolve_def)
  from inv c have 2: "p < promises st" "loadingPromises st tabId = Some p"
    by (auto simp: loop_inv_def)
  from inv 1 2 show ?thesis
    by (auto simp: loop_inv_def resolve_def)
qed

lemma loop_inv_respond:
  assumes "loop_inv st"
  shows "loop_inv (respond cfg p response st)"
proof (cases "chain_of p st")
  case None
  with assms show ?thesis by (simp add: respond_def)
next
  case (Some c)
  obtain p' tabId ph where c: "c = (p', tabId, ph)" by (cases c)
  from chain_of_Some[OF Some] c have mem: "(p, tabId, ph) \<in> set (chains st)" by auto
  show ?thesis
  proof (cases ph)
    case (Sleeping due)
    with Some c assms show ?thesis by (simp add: respond_def)
  next
    case (Fetching retries)
    have base: "loop_inv (st\<lparr>retryCount := (retryCount st)(tabId \<mapsto> retries + 1)\<rparr>)"
      by (rule loop_inv_frame[OF assms]) simp_all
    from Some c Fetching loop_inv_resolve[OF assms mem] loop_inv_set_phase[OF base]
    show ?thesis
      by (auto simp: respond_def split: sum.splits)
  qed
qed

lemma loop_inv_timer:
  assumes "loop_inv st"
  shows "loop_inv (timer cfg p st)"
proof (cases "chain_of p st")
  case None
  with assms show ?thesis by (simp add: timer_def)
next
  case (Some c)
  obtain p' tabId ph where c: "c = (p', tabId, ph)" by (cases c)
  show ?thesis
  proof (cases ph)
    case (Fetching retries)
    with Some c assms show ?thesis by (simp add: timer_def)
  next
    case (Sleeping due)
    have base: "loop_inv (st\<lparr>requests := requests st @ [content_url cfg tabId]\<rparr>)"
      by (rule loop_inv_frame[OF assms]) simp_all
    from Some c Sleeping assms loop_inv_set_phase[OF base] show ?thesis
      by (auto simp: timer_def)
  qed
qed

lemma loop_inv_resume:
  assumes inv: "loop_inv st"
  shows "loop_inv (resume p st)"
proof (cases "find (\<lambda>r. fst r = p) (resolved st)")
  case None
  with inv show ?thesis by (simp add: resume_def)
next
  case (Some r)
  obtain p' tabId v where r: "r = (p', tabId, v)" by (cases r)
  from find_Some_mem[OF Some] r have mem: "(p, tabId, v) \<in> set (resolved st)" by auto
  from inv have d: "distinct (map fst (chains st) @ map fst (resolved st))"
    and ch: "\<forall>c\<in>set (chains st). fst c < promises st \<and> loadingPromises st (fst (snd c)) = Some (fst c)"
    and rs: "\<forall>r\<in>set (resolved st). fst r < promises st \<and> loadingPromises st (fst (snd r)) = Some (fst r)"
    and lp: "\<forall>k q. loadingPromises st k = Some q \<longrightarrow> q < promises st"
    by (auto simp: loop_inv_def)
  from rs mem have own: "loadingPromises st tabId = Some p" by auto
  have ck: "\<forall>c\<in>set (chains st). fst (snd c) \<noteq> tabId"
  proof
    fix c assume c: "c \<in> set (chains st)"
    show "fst (snd c) \<noteq> tabId"
    proof
      assume "fst (snd c) = tabId"
      with ch c own have "fst c = p" by auto
      with c have "p \<in> fst ` set (chains st)" by force
      moreover from mem have "p \<in> fst ` set (resolved st)" by force
      ultimately show False using d by auto
    qed
  qed
  have rk: "\<forall>r\<in>set (filter (\<lambda>r. fst r \<noteq> p) (resolved st)). fst (snd r) \<noteq> tabId"
  proof
    fix r assume r: "r \<in> set (filter (\<lambda>r. fst r \<noteq> p) (resolved st))"
    show "fst (snd r) \<noteq> tabId"
    proof
      assume "fst (snd r) = tabId"
      with rs r own have "fst r = p" by auto
      with r show False by simp
    qed
  qed
  have d': "distinct (map fst (chains st) @ map fst (filter (\<lambda>r. fst r \<noteq> p) (resolved st)))"
    using d by (auto simp: distinct_map_filter)
  have st': "chains (resume p st) = chains st"
    "resolved (resume p st) = filter (\<lambda>r. fst r \<noteq> p) (resolved st)"
    "promises (resume p st) = promises st"
    "loadingPromises (resume p st) = (loadingPromises st)(tabId := None)"
    using Some r by (simp_all add: resume_def after_load_def)
  show ?thesis
    unfolding loop_inv_def st'
  proof (intro conjI ballI allI impI)
    show "distinct (map fst (chains st) @ map fst (filter (\<lambda>r. fst r \<noteq> p) (resolved st)))"
      by (rule d')
  next
    fix c assume "c \<in> set (chains st)"
    with ch show "fst c < promises st" by simp
  next
    fix c assume c: "c \<in> set (chains st)"
    with ck have "fst (snd c) \<noteq> tabId" by blast
    with ch c show "((loadingPromises st)(tabId := None)) (fst (snd c)) = Some (fst c)" by simp
  next
    fix r assume "r \<in> set (filter (\<lambda>r. fst r \<noteq> p) (resolved st))"
    with rs show "fst r < promises st" by simp
  next
    fix r assume r: "r \<in> set (filter (\<lambda>r. fst r \<noteq> p) (resolved st))"
    with rk have "fst (snd r) \<noteq> tabId" by blast
    with rs r show "((loadingPromises st)(tabId := None)) (fst (snd r)) = Some (fst r)" by simp
  next
    fix k q assume "((loadingPromises st)(tabId := None)) k = Some q"
    then have "loadingPromises st k = Some q" by (simp split: if_splits)
    with lp show "q < promises st" by simp
  qed
qed

lemma loop_inv_step: "loop_inv st \<Longrightarrow> loop_inv (step cfg st ev)"
proof (cases ev)
  case (ClearCache arg)
  assume "loop_inv st"
  then have "loop_inv (clearCache arg st)"
    by (rule loop_inv_frame) (auto simp: clearCache_def split: option.splits list.splits)
  with ClearCache show ?thesis by simp
next
  case (Tick d)
  assume "loop_inv st"
  then have "loop_inv (st\<lparr>clock := clock st + int d\<rparr>)" by (rule loop_inv_frame) simp_all
  with Tick show ?thesis by simp
qed (simp_all add: loop_inv_load loop_inv_respond loop_inv_timer loop_inv_resume)

lemma loop_inv_run: "loop_inv st \<Longrightarrow> loop_inv (run cfg events st)"
  unfolding run_def by (induction events arbitrary: st) (simp_all add: loop_inv_step)

lemma same_key_length:
  "distinct (map f xs) \<Longrightarrow> \<forall>x\<in>set xs. f x = a \<Longrightarrow> length xs \<le> 1"
proof (cases xs)
  case Nil
  then show ?thesis by simp
next
  case (Cons x ys)
  assume d: "distinct (map f xs)" and a: "\<forall>x\<in>set xs. f x = a"
  have "ys = []"
  proof (cases ys)
    case Nil
    then show ?thesis .
  next
    case (Cons y zs)
    with \<open>xs = x # ys\<close> a have "f y = f x" by simp
    with d \<open>xs = x # ys\<close> Cons show ?thesis by simp
  qed
  with Cons show ?thesis by simp
qed

lemma loading_at_most_one:
  assumes "loop_inv st"
  shows "length (loading st tabId) \<le> 1"
proof (cases "loadingPromises st tabId")
  case None
  with assms have "\<forall>c\<in>set (chains st). fst (snd c) \<noteq> tabId" by (auto simp: loop_inv_def)
  then have "loading st tabId = []" by (auto simp: loading_def filter_empty_conv)
  then show ?thesis by simp
next
  case (Some p)
  from assms have "distinct (map fst (chains st))" by (simp add: loop_inv_def)
  then have d: "distinct (map fst (loading st tabId))"
    by (simp add: loading_def distinct_map_filter)
  from assms Some have "\<forall>c\<in>set (loading st tabId). fst c = p"
    by (auto simp: loop_inv_def loading_def)
  from same_key_length[OF d this] show ?thesis .
qed

lemma in_flight_at_most_one:
  assumes "loop_inv st"
  shows "length (in_flight st tabId) \<le> 1"
proof -
  have "in_flight st tabId =
          filter (\<lambda>c. case snd (snd c) of Fetching _ \<Rightarrow> True | Sleeping _ \<Rightarrow> False) (loading st tabId)"
    by (simp add: in_flight_def loading_def conj_commute)
  then have "length (in_flight st tabId) \<le> length (loading st tabId)" by simp
  with loading_at_most_one[OF assms, of tabId] show ?thesis by simp
qed

lemma load_call_joins:
  assumes inv: "loop_inv st" and c: "(p, tabId, ph) \<in> set (chains st)"
  shows "requests (snd (load_call cfg tabId useCache st)) = requests st
       \<and> (cache_read cfg useCache st tabId = None \<longrightarrow>
            load_call cfg tabId useCache st = (Pending p, st))
       \<and> (\<forall>v. cache_read cfg useCache st tabId = Some v \<longrightarrow>
            load_call cfg tabId useCache st = (Returned v, st))"
proof -
  from inv c have "loadingPromises st tabId = Some p" by (auto simp: loop_inv_def)
  then show ?thesis by (auto simp: load_call_def split: option.splits)
qed

lemma load_call_starts:
  assumes inv: "loop_inv st"
    and miss: "cache_read cfg useCache st tabId = None" and idle: "loadingPromises st tabId = None"
  shows "fst (load_call cfg tabId useCache st) = Pending (promises st)
       \<and> loading (snd (load_call cfg tabId useCache st)) tabId
           = [(promises st, tabId, Fetching (retries_of st tabId))]
       \<and> requests (snd (load_call cfg tabId useCache st)) = requests st @ [content_url cfg tabId]"
proof -
  from inv idle have "\<forall>c\<in>set (chains st). fst (snd c) \<noteq> tabId" by (auto simp: loop_inv_def)
  then have "loading st tabId = []" by (auto simp: loading_def filter_empty_conv)
  with miss idle show ?thesis by (simp add: load_call_def Let_def loading_def)
qed

lemma run_load_once:
  "chains (run APP_CONFIG [Load ''vector'' True] (new_loop 0)) = [(0, ''vector'', Fetching 0)]
   \<and> requests (run APP_CONFIG [Load ''vector'' True] (new_loop 0)) = [''./content/vector.html'']
   \<and> cache_read APP_CONFIG True (run APP_CONFIG [Load ''vector'' True] (new_loop 0)) ''vector'' = None"
  by (simp add: run_def load_call_def cache_read_def new_loop_def Let_def retries_of_def
      content_url_def APP_CONFIG_def)

lemma run_forced_reload:
  "chains (run APP_CONFIG
      [Load ''vector'' True, Respond 0 (online 0 ''./content/vector.html''), Resume 0,
       Load ''vector'' False] (new_loop 0)) = [(1, ''vector'', Fetching 0)]
   \<and> cache_read APP_CONFIG True (run APP_CONFIG
      [Load ''vector'' True, Respond 0 (online 0 ''./content/vector.html''), Resume 0,
       Load ''vector'' False] (new_loop 0)) ''vector'' = Some ''<h2>./content/vector.html</h2>''"
  by (simp add: run_def load_call_def cache_read_def new_loop_def Let_def retries_of_def
      content_url_def APP_CONFIG_def respond_def chain_of_def read_response_def online_def
      resolve_def resume_def after_load_def trim_def is_space_def)

section \<open>The loader on the event loop: the claim\<close>

text \<open>
  Claim C8, as the code has it. In every state the event loop reaches from a new loader,
  a key has at most one chain of \<open>_fetchContent\<close>, hence at most one request that is out.
  While a key has a chain, a call of \<open>loadContent\<close> for it sends no request and leaves the
  state as it is: it is handed the promise of that chain, unless its cache read gives
  content, which it then returns. The call that starts a load is handed the promise of
  the chain it starts, so the callers that join get the same promise as the first.
\<close>

theorem one_fetch_per_key:
  assumes "st = run cfg events (new_loop t)"
  shows "length (in_flight st tabId) \<le> 1 \<and> length (loading st tabId) \<le> 1
       \<and> (\<forall>p ph. (p, tabId, ph) \<in> set (chains st) \<longrightarrow>
             requests (snd (load_call cfg tabId useCache st)) = requests st
           \<and> (cache_read cfg useCache st tabId = None \<longrightarrow>
                load_call cfg tabId useCache st = (Pending p, st))
           \<and> (\<forall>v. cache_read cfg useCache st tabId = Some v \<longrightarrow>
                load_call cfg tabId useCache st = (Returned v, st)))
       \<and> (cache_read cfg useCache st tabId = None \<and> loadingPromises st tabId = None \<longrightarrow>
             fst (load_call cfg tabId useCache st) = Pending (promises st)
           \<and> loading (snd (load_call cfg tabId useCache st)) tabId
               = [(promises st, tabId, Fetching (retries_of st tabId))]
           \<and> requests (snd (load_call cfg tabId useCache st)) = requests st @ [content_url cfg tabId])"
proof -
  have inv: "loop_inv st" unfolding assms by (rule loop_inv_run[OF loop_inv_new])
  from in_flight_at_most_one[OF inv] loading_at_most_one[OF inv]
    load_call_joins[OF inv] load_call_starts[OF inv]
  show ?thesis by blast
qed

theorem one_fetch_per_key_witness:
  "in_flight (run APP_CONFIG [Load ''vector'' True] (new_loop 0)) ''vector'' = [(0, ''vector'', Fetching 0)]
   \<and> load_call APP_CONFIG ''vector'' True (run APP_CONFIG [Load ''vector'' True] (new_loop 0))
       = (Pending 0, run APP_CONFIG [Load ''vector'' True] (new_loop 0))
   \<and> requests (snd (load_call APP_CONFIG ''vector'' True (run APP_CONFIG [Load ''vector'' True] (new_loop 0))))
       = [''./content/vector.html'']"
proof -
  let ?st = "run APP_CONFIG [Load ''vector'' True] (new_loop 0)"
  from run_load_once have c: "(0, ''vector'', Fetching 0) \<in> set (chains ?st)"
    and miss: "cache_read APP_CONFIG True ?st ''vector'' = None"
    and reqs: "requests ?st = [''./content/vector.html'']" by simp_all
  from run_load_once have fl: "in_flight ?st ''vector'' = [(0, ''vector'', Fetching 0)]"
    by (simp add: in_flight_def)
  from one_fetch_per_key[OF refl, of APP_CONFIG "[Load ''vector'' True]" 0 "''vector''" True] c miss
  have "load_call APP_CONFIG ''vector'' True ?st = (Pending 0, ?st)" by blast
  with fl reqs show ?thesis by simp
qed

text \<open>The claim as it stands fails after a forced reload: \<open>loadContent('vector')\<close> fills
  the cache, \<open>loadContent('vector', false)\<close> starts a fetch past the cache, and while that
  fetch is in flight \<open>loadContent('vector')\<close> returns the cached content, not the pending
  promise of the fetch.\<close>

theorem second_load_served_from_cache_counterexample:
  "in_flight (run APP_CONFIG
      [Load ''vector'' True, Respond 0 (online 0 ''./content/vector.html''), Resume 0,
       Load ''vector'' False] (new_loop 0)) ''vector'' = [(1, ''vector'', Fetching 0)]
   \<and> fst (load_call APP_CONFIG ''vector'' True (run APP_CONFIG
      [Load ''vector'' True, Respond 0 (online 0 ''./content/vector.html''), Resume 0,
       Load ''vector'' False] (new_loop 0))) = Returned ''<h2>./content/vector.html</h2>''
   \<and> fst (load_call APP_CONFIG ''vector'' True (run APP_CONFIG
      [Load ''vector'' True, Respond 0 (online 0 ''./content/vector.html''), Resume 0,
       Load ''vector'' False] (new_loop 0))) \<noteq> Pending 1"
proof -
  let ?st = "run APP_CONFIG
      [Load ''vector'' True, Respond 0 (online 0 ''./content/vector.html''), Resume 0,
       Load ''vector'' False] (new_loop 0)"
  from run_forced_reload have fl: "in_flight ?st ''vector'' = [(1, ''vector'', Fetching 0)]"
    by (simp add: in_flight_def)
  from run_forced_reload have "fst (load_call APP_CONFIG ''vector'' True ?st) = Returned ''<h2>./content/vector.html</h2>''"
    by (simp add: load_call_def)
  with fl show ?thesis by simp
qed

section \<open>The loader on the event loop: the retries of a load\<close>

lemma content_url_inj: "content_url cfg a = content_url cfg b \<longleftrightarrow> a = b"
  by (simp add: content_url_def)

lemma sent_request:
  "requests st' = requests st @ [content_url cfg a] \<Longrightarrow>
     sent cfg st' tabId = sent cfg st tabId + (if a = tabId then 1 else 0)"
  by (simp add: sent_def content_url_inj)

lemma sent_same: "requests st' = requests st \<Longrightarrow> sent cfg st' tabId = sent cfg st tabId"
  by (simp add: sent_def)

lemma retries_same: "retryCount st' tabId = retryCount st tabId \<Longrightarrow> retries_of st' tabId = retries_of st tabId"
  by (simp add: retries_of_def)

lemma chain_owner:
  "loop_inv st \<Longrightarrow> (q, k, ph) \<in> set (chains st) \<Longrightarrow> loadingPromises st k = Some q"
  by (force simp: loop_inv_def)

lemma resolved_owner:
  "loop_inv st \<Longrightarrow> (q, k, c) \<in> set (resolved st) \<Longrightarrow> loadingPromises st k = Some q"
  by (force simp: loop_inv_def)

lemma chain_not_resolved:
  assumes "loop_inv st" and "(p, k, ph) \<in> set (chains st)"
  shows "(p, k', c) \<notin> set (resolved st)"
proof
  assume "(p, k', c) \<in> set (resolved st)"
  then have "p \<in> fst ` set (resolved st)" by force
  moreover from assms(2) have "p \<in> fst ` set (chains st)" by force
  moreover from assms(1) have "fst ` set (chains st) \<inter> fst ` set (resolved st) = {}"
    by (simp add: loop_inv_def)
  ultimately show False by blast
qed

lemma chain_unique:
  assumes "loop_inv st" and "(p, k, ph) \<in> set (chains st)" and "(p, k', ph') \<in> set (chains st)"
  shows "k' = k \<and> ph' = ph"
proof -
  from assms(1) have "distinct (map fst (chains st))" by (simp add: loop_inv_def)
  from eq_key_imp_eq_value[OF this assms(2) assms(3)] show ?thesis by simp
qed

lemma chain_of_mem:
  assumes "loop_inv st" and "(p, k, ph) \<in> set (chains st)"
  shows "chain_of p st = Some (p, k, ph)"
proof (cases "chain_of p st")
  case None
  with assms(2) show ?thesis by (force simp: chain_of_def find_None_iff)
next
  case (Some c)
  obtain q k' ph' where c: "c = (q, k', ph')" by (cases c)
  from chain_of_Some[OF Some] c have "(p, k', ph') \<in> set (chains st)" and "q = p" by auto
  with chain_unique[OF assms, of k' ph'] Some c show ?thesis by simp
qed

lemma set_phase_mem:
  "(q, k, ph') \<in> set (chains (set_phase p ph st)) \<longleftrightarrow>
     (if q = p then ph' = ph \<and> (\<exists>old. (p, k, old) \<in> set (chains st)) else (q, k, ph') \<in> set (chains st))"
  by (force simp: set_phase_def)

lemma set_phase_fields:
  "resolved (set_phase p ph st) = resolved st" "promises (set_phase p ph st) = promises st"
  "requests (set_phase p ph st) = requests st" "retryCount (set_phase p ph st) = retryCount st"
  "clock (set_phase p ph st) = clock st" "loadingPromises (set_phase p ph st) = loadingPromises st"
  by (simp_all add: set_phase_def)

lemma resolve_fields:
  "chains (resolve p k c st) = filter (\<lambda>ch. fst ch \<noteq> p) (chains st)"
  "resolved (resolve p k c st) = resolved st @ [(p, k, c)]"
  "promises (resolve p k c st) = promises st" "requests (resolve p k c st) = requests st"
  "retryCount (resolve p k c st) = retryCount st"
  by (simp_all add: resolve_def)

lemma retrying_frame:
  assumes "retrying cfg tabId p n0 st"
    and "promises st \<le> promises st'"
    and "\<And>k ph. (p, k, ph) \<in> set (chains st') \<Longrightarrow> (p, k, ph) \<in> set (chains st)"
    and "\<And>k c. (p, k, c) \<in> set (resolved st') \<Longrightarrow> (p, k, c) \<in> set (resolved st)"
    and "\<And>ph. (p, tabId, ph) \<in> set (chains st) \<Longrightarrow>
           sent cfg st' tabId = sent cfg st tabId \<and> retries_of st' tabId = retries_of st tabId"
    and "\<And>c. (p, tabId, c) \<in> set (resolved st) \<Longrightarrow>
           sent cfg st' tabId = sent cfg st tabId \<and> retries_of st' tabId = retries_of st tabId"
  shows "retrying cfg tabId p n0 st'"
  unfolding retrying_def
proof (intro conjI allI impI)
  from assms(1,2) show "p < promises st'" by (simp add: retrying_def)
next
  fix k n assume "(p, k, Fetching n) \<in> set (chains st')"
  then have m: "(p, k, Fetching n) \<in> set (chains st)" by (rule assms(3))
  with assms(1) have k: "k = tabId" and r: "n \<le> retryAttempts cfg" "retries_of st tabId = n"
    "sent cfg st tabId = n0 + n + 1" by (auto simp: retrying_def)
  from assms(5)[of "Fetching n"] m k
  have "sent cfg st' tabId = sent cfg st tabId \<and> retries_of st' tabId = retries_of st tabId" by simp
  with k r show "k = tabId" "n \<le> retryAttempts cfg" "retries_of st' tabId = n"
    "sent cfg st' tabId = n0 + n + 1" by simp_all
next
  fix k due assume "(p, k, Sleeping due) \<in> set (chains st')"
  then have m: "(p, k, Sleeping due) \<in> set (chains st)" by (rule assms(3))
  with assms(1) have k: "k = tabId" and r: "0 < retries_of st tabId"
    "retries_of st tabId \<le> retryAttempts cfg" "sent cfg st tabId = n0 + retries_of st tabId"
    by (auto simp: retrying_def)
  from assms(5)[of "Sleeping due"] m k
  have "sent cfg st' tabId = sent cfg st tabId \<and> retries_of st' tabId = retries_of st tabId" by simp
  with k r show "k = tabId" "0 < retries_of st' tabId" "retries_of st' tabId \<le> retryAttempts cfg"
    "sent cfg st' tabId = n0 + retries_of st' tabId" by simp_all
next
  fix k c assume "(p, k, c) \<in> set (resolved st')"
  then have m: "(p, k, c) \<in> set (resolved st)" by (rule assms(4))
  with assms(1) have k: "k = tabId" and r: "retries_of st tabId = retryAttempts cfg"
    "sent cfg st tabId = n0 + retryAttempts cfg + 1"
    "\<exists>response. failing response \<and> c = getFallbackContent cfg tabId (error_message response)"
    by (auto simp: retrying_def)
  from assms(6)[of c] m k
  have "sent cfg st' tabId = sent cfg st tabId \<and> retries_of st' tabId = retries_of st tabId" by simp
  with k r show "k = tabId" "retries_of st' tabId = retryAttempts cfg"
    "sent cfg st' tabId = n0 + retryAttempts cfg + 1"
    "\<exists>response. failing response \<and> c = getFallbackContent cfg tabId (error_message response)"
    by simp_all
qed

lemma other_key:
  assumes "loop_inv st" and "loadingPromises st a = Some q" and "q \<noteq> p"
  shows "(p, a, ph) \<notin> set (chains st)" "(p, a, c) \<notin> set (resolved st)"
  using assms chain_owner[of st p a ph] resolved_owner[of st p a c] by auto

lemma retrying_start:
  assumes inv: "loop_inv st0" and zero: "retries_of st0 tabId = 0"
    and miss: "cache_read cfg useCache st0 tabId = None" and idle: "loadingPromises st0 tabId = None"
  shows "retrying cfg tabId (promises st0) (sent cfg st0 tabId) (snd (load_call cfg tabId useCache st0))"
    and "(promises st0, tabId, Fetching 0) \<in> set (chains (snd (load_call cfg tabId useCache st0)))"
proof -
  let ?st = "snd (load_call cfg tabId useCache st0)"
  from miss idle zero have st:
    "chains ?st = chains st0 @ [(promises st0, tabId, Fetching 0)]"
    "resolved ?st = resolved st0" "promises ?st = promises st0 + 1"
    "requests ?st = requests st0 @ [content_url cfg tabId]" "retryCount ?st = retryCount st0"
    by (simp_all add: load_call_def Let_def)
  from inv have old: "\<forall>c\<in>set (chains st0). fst c \<noteq> promises st0"
    "\<forall>r\<in>set (resolved st0). fst r \<noteq> promises st0"
    by (auto simp: loop_inv_def)
  from st(1) show "(promises st0, tabId, Fetching 0) \<in> set (chains ?st)" by simp
  have r: "retries_of ?st tabId = 0" using zero st(5) by (simp add: retries_of_def)
  have s: "sent cfg ?st tabId = sent cfg st0 tabId + 1" using sent_request[OF st(4)] by simp
  show "retrying cfg tabId (promises st0) (sent cfg st0 tabId) ?st"
    unfolding retrying_def st(1,2,3) using old r s by force
qed

lemma retrying_load:
  assumes inv: "loop_inv st" and r: "retrying cfg tabId p n0 st"
  shows "retrying cfg tabId p n0 (snd (load_call cfg a useCache st))"
proof (cases "cache_read cfg useCache st a = None \<and> loadingPromises st a = None")
  case False
  then have "snd (load_call cfg a useCache st) = st"
    by (auto simp: load_call_def split: option.splits)
  with r show ?thesis by simp
next
  case True
  let ?st = "snd (load_call cfg a useCache st)"
  from True have st:
    "chains ?st = chains st @ [(promises st, a, Fetching (retries_of st a))]"
    "resolved ?st = resolved st" "promises ?st = promises st + 1"
    "requests ?st = requests st @ [content_url cfg a]" "retryCount ?st = retryCount st"
    by (simp_all add: load_call_def Let_def)
  from r have lt: "p < promises st" by (simp add: retrying_def)
  show ?thesis
  proof (rule retrying_frame[OF r])
    show "promises st \<le> promises ?st" by (simp add: st)
  next
    fix k ph assume "(p, k, ph) \<in> set (chains ?st)"
    with lt show "(p, k, ph) \<in> set (chains st)" by (auto simp: st)
  next
    fix k c assume "(p, k, c) \<in> set (resolved ?st)"
    then show "(p, k, c) \<in> set (resolved st)" by (simp add: st)
  next
    fix ph assume "(p, tabId, ph) \<in> set (chains st)"
    from chain_owner[OF inv this] True have "a \<noteq> tabId" by auto
    with sent_request[OF st(4), of tabId] retries_same[of ?st tabId st] st(5)
    show "sent cfg ?st tabId = sent cfg st tabId \<and> retries_of ?st tabId = retries_of st tabId" by simp
  next
    fix c assume "(p, tabId, c) \<in> set (resolved st)"
    from resolved_owner[OF inv this] True have "a \<noteq> tabId" by auto
    with sent_request[OF st(4), of tabId] retries_same[of ?st tabId st] st(5)
    show "sent cfg ?st tabId = sent cfg st tabId \<and> retries_of ?st tabId = retries_of st tabId" by simp
  qed
qed

lemma retrying_other:
  assumes inv: "loop_inv st" and r: "retrying cfg tabId p n0 st"
    and q: "loadingPromises st a = Some q" "q \<noteq> p"
    and "promises st' = promises st"
    and ch: "\<And>k ph. (p, k, ph) \<in> set (chains st') \<Longrightarrow> (p, k, ph) \<in> set (chains st)"
    and rs: "\<And>k c. (p, k, c) \<in> set (resolved st') \<Longrightarrow> (p, k, c) \<in> set (resolved st)"
    and req: "requests st' = requests st \<or> requests st' = requests st @ [content_url cfg a]"
    and cnt: "\<And>k. k \<noteq> a \<Longrightarrow> retryCount st' k = retryCount st k"
  shows "retrying cfg tabId p n0 st'"
proof (rule retrying_frame[OF r])
  show "promises st \<le> promises st'" using assms(5) by simp
next
  fix k ph assume "(p, k, ph) \<in> set (chains st')"
  then show "(p, k, ph) \<in> set (chains st)" by (rule ch)
next
  fix k c assume "(p, k, c) \<in> set (resolved st')"
  then show "(p, k, c) \<in> set (resolved st)" by (rule rs)
next
  fix ph assume "(p, tabId, ph) \<in> set (chains st)"
  with other_key(1)[OF inv q, of ph] have ne: "tabId \<noteq> a" by auto
  from req ne have "sent cfg st' tabId = sent cfg st tabId"
    using sent_request[of st' st cfg a tabId] sent_same[of st' st cfg tabId] by auto
  moreover from cnt[OF ne] have "retries_of st' tabId = retries_of st tabId" by (rule retries_same)
  ultimately show "sent cfg st' tabId = sent cfg st tabId \<and> retries_of st' tabId = retries_of st tabId" ..
next
  fix c assume "(p, tabId, c) \<in> set (resolved st)"
  with other_key(2)[OF inv q, of c] have ne: "tabId \<noteq> a" by auto
  from req ne have "sent cfg st' tabId = sent cfg st tabId"
    using sent_request[of st' st cfg a tabId] sent_same[of st' st cfg tabId] by auto
  moreover from cnt[OF ne] have "retries_of st' tabId = retries_of st tabId" by (rule retries_same)
  ultimately show "sent cfg st' tabId = sent cfg st tabId \<and> retries_of st' tabId = retries_of st tabId" ..
qed

lemma retrying_respond:
  assumes inv: "loop_inv st" and r: "retrying cfg tabId p n0 st"
    and fail: "q = p \<Longrightarrow> failing response"
  shows "retrying cfg tabId p n0 (respond cfg q response st)"
proof (cases "chain_of q st")
  case None
  with r show ?thesis by (simp add: respond_def)
next
  case (Some ch)
  obtain q' a ph where ch: "ch = (q', a, ph)" by (cases ch)
  from chain_of_Some[OF Some] ch have mem: "(q, a, ph) \<in> set (chains st)" and q': "q' = q" by auto
  show ?thesis
  proof (cases ph)
    case (Sleeping due)
    with Some ch r show ?thesis by (simp add: respond_def)
  next
    case (Fetching n)
    let ?st = "respond cfg q response st"
    let ?due = "clock st + retryDelay cfg * int (n + 1)"
    let ?up = "set_phase q (Sleeping ?due) (st\<lparr>retryCount := (retryCount st)(a \<mapsto> n + 1)\<rparr>)"
    have cases: "(\<exists>c. ?st = resolve q a c st) \<or> ?st = ?up"
      using Some ch Fetching by (auto simp: respond_def split: sum.splits)
    show ?thesis
    proof (cases "q = p")
      case False
      then have ne': "p \<noteq> q" by auto
      from chain_owner[OF inv mem] have own: "loadingPromises st a = Some q" .
      from cases show ?thesis
      proof
        assume "\<exists>c. ?st = resolve q a c st"
        then obtain c where st: "?st = resolve q a c st" ..
        show ?thesis unfolding st
          by (rule retrying_other[OF inv r own False]) (auto simp: resolve_fields ne')
      next
        assume st: "?st = ?up"
        show ?thesis unfolding st
          by (rule retrying_other[OF inv r own False])
             (auto simp: set_phase_fields set_phase_mem ne')
      qed
    next
      case True
      from mem True Fetching have m: "(p, a, Fetching n) \<in> set (chains st)" by simp
      with r have a: "a = tabId" and n: "n \<le> retryAttempts cfg" "retries_of st tabId = n"
        "sent cfg st tabId = n0 + n + 1" and lt: "p < promises st"
        by (auto simp: retrying_def)
      from fail[OF True] have rd: "read_response response = Inl (error_message response)"
        by (rule failing_read)
      have nores: "\<And>k c. (p, k, c) \<notin> set (resolved st)"
        using chain_not_resolved[OF inv m] by simp
      show ?thesis
      proof (cases "n < retryAttempts cfg")
        case less: True
        with Some ch Fetching rd have st: "?st = ?up" by (simp add: respond_def)
        have u: "\<And>k old. (p, k, old) \<in> set (chains st) \<Longrightarrow> k = tabId"
          using chain_unique[OF inv m] a by blast
        have rt: "retries_of ?up tabId = n + 1"
          by (simp add: retries_of_def set_phase_fields a)
        have sn: "sent cfg ?up tabId = n0 + n + 1"
          using n(3) by (simp add: sent_def set_phase_fields)
        show ?thesis unfolding st retrying_def
        proof (intro conjI allI impI)
          show "p < promises ?up" using lt by (simp add: set_phase_fields)
        next
          fix k m' assume "(p, k, Fetching m') \<in> set (chains ?up)"
          then have False using True by (simp add: set_phase_mem)
          then show "k = tabId" "m' \<le> retryAttempts cfg" "retries_of ?up tabId = m'"
            "sent cfg ?up tabId = n0 + m' + 1" by simp_all
        next
          fix k due assume "(p, k, Sleeping due) \<in> set (chains ?up)"
          then have "\<exists>old. (p, k, old) \<in> set (chains st)" using True by (simp add: set_phase_mem)
          with u show "k = tabId" by blast
          from rt show "0 < retries_of ?up tabId" by simp
          from rt less show "retries_of ?up tabId \<le> retryAttempts cfg" by simp
          from rt sn show "sent cfg ?up tabId = n0 + retries_of ?up tabId" by simp
        next
          fix k c assume "(p, k, c) \<in> set (resolved ?up)"
          with nores have False by (simp add: set_phase_fields)
          then show "k = tabId" "retries_of ?up tabId = retryAttempts cfg"
            "sent cfg ?up tabId = n0 + retryAttempts cfg + 1"
            "\<exists>response. failing response \<and> c = getFallbackContent cfg tabId (error_message response)"
            by simp_all
        qed
      next
        case False
        with n(1) have top: "n = retryAttempts cfg" by simp
        let ?fb = "getFallbackContent cfg a (error_message response)"
        from False Some ch Fetching rd have st: "?st = resolve q a ?fb st" by (simp add: respond_def)
        have rt: "retries_of (resolve q a ?fb st) tabId = retryAttempts cfg"
          using n(2) top by (simp add: retries_of_def resolve_fields)
        have sn: "sent cfg (resolve q a ?fb st) tabId = n0 + retryAttempts cfg + 1"
          using n(3) top by (simp add: sent_def resolve_fields)
        show ?thesis unfolding st retrying_def
        proof (intro conjI allI impI)
          show "p < promises (resolve q a ?fb st)" using lt by (simp add: resolve_fields)
        next
          fix k m' assume "(p, k, Fetching m') \<in> set (chains (resolve q a ?fb st))"
          then have False using True by (simp add: resolve_fields)
          then show "k = tabId" "m' \<le> retryAttempts cfg" "retries_of (resolve q a ?fb st) tabId = m'"
            "sent cfg (resolve q a ?fb st) tabId = n0 + m' + 1" by simp_all
        next
          fix k due assume "(p, k, Sleeping due) \<in> set (chains (resolve q a ?fb st))"
          then have False using True by (simp add: resolve_fields)
          then show "k = tabId" "0 < retries_of (resolve q a ?fb st) tabId"
            "retries_of (resolve q a ?fb st) tabId \<le> retryAttempts cfg"
            "sent cfg (resolve q a ?fb st) tabId = n0 + retries_of (resolve q a ?fb st) tabId"
            by simp_all
        next
          fix k c assume "(p, k, c) \<in> set (resolved (resolve q a ?fb st))"
          with nores True have kc: "k = a \<and> c = ?fb" by (auto simp: resolve_fields)
          with a show "k = tabId" by simp
          from rt show "retries_of (resolve q a ?fb st) tabId = retryAttempts cfg" .
          from sn show "sent cfg (resolve q a ?fb st) tabId = n0 + retryAttempts cfg + 1" .
          from kc a fail[OF True]
          show "\<exists>response. failing response \<and> c = getFallbackContent cfg tabId (error_message response)"
            by blast
        qed
      qed
    qed
  qed
qed

lemma retrying_timer:
  assumes inv: "loop_inv st" and r: "retrying cfg tabId p n0 st"
  shows "retrying cfg tabId p n0 (timer cfg q st)"
proof (cases "chain_of q st")
  case None
  with r show ?thesis by (simp add: timer_def)
next
  case (Some ch)
  obtain q' a ph where ch: "ch = (q', a, ph)" by (cases ch)
  from chain_of_Some[OF Some] ch have mem: "(q, a, ph) \<in> set (chains st)" and q': "q' = q" by auto
  show ?thesis
  proof (cases ph)
    case (Fetching n)
    with Some ch r show ?thesis by (simp add: timer_def)
  next
    case (Sleeping due)
    show ?thesis
    proof (cases "clock st < due")
      case True
      with Some ch Sleeping r show ?thesis by (simp add: timer_def)
    next
      case False
      let ?up = "set_phase q (Fetching (retries_of st a)) (st\<lparr>requests := requests st @ [content_url cfg a]\<rparr>)"
      from False Some ch Sleeping have st: "timer cfg q st = ?up" by (simp add: timer_def)
      show ?thesis
      proof (cases "q = p")
        case ne: False
        then have ne': "p \<noteq> q" by auto
        from chain_owner[OF inv mem] have own: "loadingPromises st a = Some q" .
        show ?thesis unfolding st
          by (rule retrying_other[OF inv r own ne])
             (auto simp: set_phase_fields set_phase_mem ne')
      next
        case True
        from mem True Sleeping have m: "(p, a, Sleeping due) \<in> set (chains st)" by simp
        with r have a: "a = tabId" and n: "0 < retries_of st tabId" "retries_of st tabId \<le> retryAttempts cfg"
          "sent cfg st tabId = n0 + retries_of st tabId" and lt: "p < promises st"
          by (auto simp: retrying_def)
        have nores: "\<And>k c. (p, k, c) \<notin> set (resolved st)"
          using chain_not_resolved[OF inv m] by simp
        have u: "\<And>k old. (p, k, old) \<in> set (chains st) \<Longrightarrow> k = tabId"
          using chain_unique[OF inv m] a by blast
        have rt: "retries_of ?up tabId = retries_of st tabId"
          by (simp add: retries_of_def set_phase_fields)
        have sn: "sent cfg ?up tabId = n0 + retries_of st tabId + 1"
          using n(3) a by (simp add: sent_def set_phase_fields)
        show ?thesis unfolding st retrying_def
        proof (intro conjI allI impI)
          show "p < promises ?up" using lt by (simp add: set_phase_fields)
        next
          fix k m' assume "(p, k, Fetching m') \<in> set (chains ?up)"
          then have k: "m' = retries_of st a" "\<exists>old. (p, k, old) \<in> set (chains st)"
            using True by (simp_all add: set_phase_mem)
          with u show "k = tabId" by blast
          from k a n show "m' \<le> retryAttempts cfg" by simp
          from k a rt show "retries_of ?up tabId = m'" by simp
          from k a sn show "sent cfg ?up tabId = n0 + m' + 1" by simp
        next
          fix k due' assume "(p, k, Sleeping due') \<in> set (chains ?up)"
          then have False using True by (simp add: set_phase_mem)
          then show "k = tabId" "0 < retries_of ?up tabId" "retries_of ?up tabId \<le> retryAttempts cfg"
            "sent cfg ?up tabId = n0 + retries_of ?up tabId" by simp_all
        next
          fix k c assume "(p, k, c) \<in> set (resolved ?up)"
          with nores have False by (simp add: set_phase_fields)
          then show "k = tabId" "retries_of ?up tabId = retryAttempts cfg"
            "sent cfg ?up tabId = n0 + retryAttempts cfg + 1"
            "\<exists>response. failing response \<and> c = getFallbackContent cfg tabId (error_message response)"
            by simp_all
        qed
      qed
    qed
  qed
qed

lemma retrying_resume:
  assumes inv: "loop_inv st" and r: "retrying cfg tabId p n0 st"
  shows "retrying cfg tabId p n0 (resume q st)"
proof (cases "find (\<lambda>r. fst r = q) (resolved st)")
  case None
  with r show ?thesis by (simp add: resume_def)
next
  case (Some e)
  obtain q' a c where e: "e = (q', a, c)" by (cases e)
  from find_Some_mem[OF Some] e have mem: "(q, a, c) \<in> set (resolved st)" and q': "q' = q" by auto
  let ?st = "resume q st"
  have st: "chains ?st = chains st" "resolved ?st = filter (\<lambda>r. fst r \<noteq> q) (resolved st)"
    "promises ?st = promises st" "requests ?st = requests st"
    "retryCount ?st = (retryCount st)(a := None)"
    using Some e by (simp_all add: resume_def after_load_def)
  show ?thesis
  proof (cases "q = p")
    case False
    from resolved_owner[OF inv mem] have own: "loadingPromises st a = Some q" .
    show ?thesis
      by (rule retrying_other[OF inv r own False]) (auto simp: st)
  next
    case True
    have noch: "\<And>k ph. (p, k, ph) \<notin> set (chains st)"
    proof
      fix k ph assume "(p, k, ph) \<in> set (chains st)"
      from chain_not_resolved[OF inv this, of a c] mem True show False by simp
    qed
    from r have lt: "p < promises st" by (simp add: retrying_def)
    show ?thesis unfolding retrying_def st using noch lt True by auto
  qed
qed

lemma retrying_step:
  assumes inv: "loop_inv st" and r: "retrying cfg tabId p n0 st"
    and quiet: "\<not> clears tabId ev" and fail: "\<And>response. ev = Respond p response \<Longrightarrow> failing response"
  shows "retrying cfg tabId p n0 (step cfg st ev)"
proof (cases ev)
  case (Load a useCache)
  with retrying_load[OF inv r] show ?thesis by simp
next
  case (Respond q response)
  with fail have "q = p \<Longrightarrow> failing response" by simp
  from retrying_respond[OF inv r this] Respond show ?thesis by simp
next
  case (Timer q)
  with retrying_timer[OF inv r] show ?thesis by simp
next
  case (Resume q)
  with retrying_resume[OF inv r] show ?thesis by simp
next
  case (Tick d)
  have "retrying cfg tabId p n0 (st\<lparr>clock := clock st + int d\<rparr>)"
    by (rule retrying_frame[OF r]) (simp_all add: sent_def retries_of_def)
  with Tick show ?thesis by simp
next
  case (ClearCache arg)
  with quiet obtain a where arg: "arg = Some a" and a: "a \<noteq> []" "a \<noteq> tabId"
    by (cases arg) auto
  then obtain c cs where cs: "a = c # cs" by (cases a) auto
  from arg cs have cc: "clearCache arg st =
      st\<lparr>cache := (cache st)(a := None), retryCount := (retryCount st)(a := None)\<rparr>"
    by (simp add: clearCache_def)
  have "retrying cfg tabId p n0 (clearCache arg st)"
    unfolding cc using a(2) by (intro retrying_frame[OF r]) (auto simp: sent_def retries_of_def)
  with ClearCache show ?thesis by simp
qed

lemma retrying_run:
  assumes "loop_inv st" and "retrying cfg tabId p n0 st"
    and "\<forall>ev\<in>set events. \<not> clears tabId ev"
    and "\<forall>response. Respond p response \<in> set events \<longrightarrow> failing response"
  shows "retrying cfg tabId p n0 (run cfg events st)"
  using assms
proof (induction events arbitrary: st)
  case Nil
  then show ?case by (simp add: run_def)
next
  case (Cons ev events)
  from Cons.prems have 1: "loop_inv (step cfg st ev)" by (simp add: loop_inv_step)
  from Cons.prems have 2: "retrying cfg tabId p n0 (step cfg st ev)"
    by (intro retrying_step) auto
  from Cons.IH[OF 1 2] Cons.prems(3,4) show ?case by (simp add: run_def)
qed

lemma run_Cons: "run cfg (ev # events) st = run cfg events (step cfg st ev)"
  by (simp add: run_def)

lemma retry_round:
  assumes inv: "loop_inv st" and m: "(p, tabId, Fetching i) \<in> set (chains st)"
    and less: "i < retryAttempts cfg" and fail: "failing response"
  shows "(p, tabId, Fetching (i + 1)) \<in> set (chains
           (run cfg [Respond p response, Tick (nat (retryDelay cfg * int (i + 1))), Timer p] st))"
proof -
  let ?due = "clock st + retryDelay cfg * int (i + 1)"
  let ?s1 = "step cfg st (Respond p response)"
  let ?s2 = "step cfg ?s1 (Tick (nat (retryDelay cfg * int (i + 1))))"
  from chain_of_mem[OF inv m] failing_read[OF fail] less
  have s1: "?s1 = set_phase p (Sleeping ?due) (st\<lparr>retryCount := (retryCount st)(tabId \<mapsto> i + 1)\<rparr>)"
    by (simp add: respond_def)
  have inv2: "loop_inv ?s2" by (intro loop_inv_step inv)
  from m have m1: "(p, tabId, Sleeping ?due) \<in> set (chains ?s1)"
    unfolding s1 by (auto simp: set_phase_mem)
  then have m2: "(p, tabId, Sleeping ?due) \<in> set (chains ?s2)" by simp
  have clock: "\<not> clock ?s2 < ?due" unfolding s1 by (simp add: set_phase_fields)
  have rt: "retries_of ?s2 tabId = i + 1" unfolding s1 by (simp add: retries_of_def set_phase_fields)
  from chain_of_mem[OF inv2 m2] clock rt
  have "step cfg ?s2 (Timer p) =
          set_phase p (Fetching (i + 1)) (?s2\<lparr>requests := requests ?s2 @ [content_url cfg tabId]\<rparr>)"
    by (simp add: timer_def)
  moreover from m2
  have "(p, tabId, Fetching (i + 1)) \<in> set (chains
          (set_phase p (Fetching (i + 1)) (?s2\<lparr>requests := requests ?s2 @ [content_url cfg tabId]\<rparr>)))"
    by (auto simp: set_phase_mem)
  ultimately show ?thesis by (simp add: run_def)
qed

lemma retry_give_up:
  assumes inv: "loop_inv st" and m: "(p, tabId, Fetching i) \<in> set (chains st)"
    and top: "\<not> i < retryAttempts cfg" and fail: "failing response"
  shows "(p, tabId, getFallbackContent cfg tabId (error_message response))
           \<in> set (resolved (run cfg [Respond p response] st))"
  using chain_of_mem[OF inv m] failing_read[OF fail] top
  by (simp add: run_def respond_def resolve_fields)

lemma retry_schedule_resolves:
  assumes "loop_inv st" and "(p, tabId, Fetching i) \<in> set (chains st)"
    and "responses \<noteq> []" and "i + length responses = retryAttempts cfg + 1"
    and "\<forall>response\<in>set responses. failing response"
  shows "(p, tabId, getFallbackContent cfg tabId (error_message (last responses)))
           \<in> set (resolved (run cfg (retry_schedule cfg p i responses) st))"
  using assms
proof (induction cfg p i responses arbitrary: st rule: retry_schedule.induct)
  case (1 cfg p i)
  then show ?case by simp
next
  case (2 cfg p i response)
  then have "\<not> i < retryAttempts cfg" "failing response" by simp_all
  from retry_give_up[OF "2.prems"(1,2) this] show ?case by simp
next
  case (3 cfg p i response next_response responses)
  let ?round = "[Respond p response, Tick (nat (retryDelay cfg * int (i + 1))), Timer p]"
  from "3.prems" have less: "i < retryAttempts cfg" and fail: "failing response" by simp_all
  have inv': "loop_inv (run cfg ?round st)" by (rule loop_inv_run[OF "3.prems"(1)])
  from retry_round[OF "3.prems"(1,2) less fail]
  have m': "(p, tabId, Fetching (i + 1)) \<in> set (chains (run cfg ?round st))" .
  from "3.prems" have rest: "next_response # responses \<noteq> []"
    "i + 1 + length (next_response # responses) = retryAttempts cfg + 1"
    "\<forall>response\<in>set (next_response # responses). failing response" by simp_all
  from "3.IH"[OF inv' m' rest] show ?case by (simp add: run_def)
qed

lemma retry_schedule_quiet: "ev \<in> set (retry_schedule cfg p i responses) \<Longrightarrow> \<not> clears tabId ev"
  by (induction cfg p i responses rule: retry_schedule.induct) auto

lemma retry_schedule_answers:
  "Respond q response \<in> set (retry_schedule cfg p i responses) \<Longrightarrow> response \<in> set responses"
  by (induction cfg p i responses rule: retry_schedule.induct) auto

lemma retrying_after_load:
  assumes "st0 = run cfg earlier (new_loop t)"
    and "retries_of st0 tabId = 0"
    and "cache_read cfg useCache st0 tabId = None"
    and "loadingPromises st0 tabId = None"
    and "\<forall>ev\<in>set events. \<not> clears tabId ev"
    and "\<forall>response. Respond (promises st0) response \<in> set events \<longrightarrow> failing response"
  shows "retrying cfg tabId (promises st0) (sent cfg st0 tabId)
           (run cfg events (snd (load_call cfg tabId useCache st0)))"
proof -
  have inv: "loop_inv st0" unfolding assms(1) by (rule loop_inv_run[OF loop_inv_new])
  from retrying_run[OF loop_inv_load[OF inv] retrying_start(1)[OF inv assms(2-4)] assms(5,6)]
  show ?thesis .
qed

lemma undisturbed_run:
  "resolved (run APP_CONFIG
      [Respond 0 (NetworkError ''Failed to fetch''), Load ''map'' True, Tick 1000, Timer 0,
       Respond 0 (Response True 200 ''OK'' ''''), ClearCache (Some ''map''), Tick 2000, Timer 0,
       Respond 0 (Response False 503 ''Service Unavailable'' ''''), Tick 3000, Timer 0,
       Respond 0 (NetworkError ''Failed to fetch'')]
      (snd (load_call APP_CONFIG ''vector'' True (run APP_CONFIG [] (new_loop 0)))))
    = [(0, ''vector'', getFallbackContent APP_CONFIG ''vector'' ''Failed to fetch'')]"
  by (simp add: run_def load_call_def cache_read_def new_loop_def Let_def retries_of_def
      content_url_def APP_CONFIG_def respond_def timer_def chain_of_def set_phase_def
      read_response_def resolve_def clearCache_def trim_def show_nat.simps)

lemma cleared_run:
  "resolved (run APP_CONFIG
      [Load ''vector'' True, Respond 0 (offline 0 ''./content/vector.html''),
       ClearCache None, Tick 1000, Timer 0, Respond 0 (offline 1 ''./content/vector.html''),
       Tick 1000, Timer 0, Respond 0 (offline 2 ''./content/vector.html''),
       Tick 2000, Timer 0, Respond 0 (offline 3 ''./content/vector.html''),
       Tick 3000, Timer 0, Respond 0 (offline 4 ''./content/vector.html'')] (new_loop 0))
     = [(0, ''vector'', getFallbackContent APP_CONFIG ''vector'' ''Failed to fetch'')]
   \<and> requests (run APP_CONFIG
      [Load ''vector'' True, Respond 0 (offline 0 ''./content/vector.html''),
       ClearCache None, Tick 1000, Timer 0, Respond 0 (offline 1 ''./content/vector.html''),
       Tick 1000, Timer 0, Respond 0 (offline 2 ''./content/vector.html''),
       Tick 2000, Timer 0, Respond 0 (offline 3 ''./content/vector.html''),
       Tick 3000, Timer 0, Respond 0 (offline 4 ''./content/vector.html'')] (new_loop 0))
     = [''./content/vector.html'', ''./content/vector.html'', ''./content/vector.html'',
        ''./content/vector.html'', ''./content/vector.html'']"
  by (simp add: run_def load_call_def cache_read_def new_loop_def Let_def retries_of_def
      content_url_def APP_CONFIG_def respond_def timer_def chain_of_def set_phase_def
      read_response_def resolve_def clearCache_def offline_def)

section \<open>The loader on the event loop: the retry ceiling\<close>

text \<open>
  Claim C6, as the code has it. \<open>_fetchContent\<close> reads the retry counter of the key anew
  after every wait, and \<open>clearCache\<close> deletes it, so the ceiling holds for a load that no
  \<open>clearCache\<close> reaching its key runs beside. Let \<open>retryAttempts\<close> be 3, let a load of a key
  whose counter is zero reach the network in a state of the event loop, and let any
  events follow in which every answer to the load's requests is failing and no
  \<open>clearCache\<close> reaches the key. Then the call is handed the promise of the load; while a
  request of the load is out, it is the first request or one of at most three retries,
  and the requests sent for the key since the call are one more than the retries; during
  a wait they are as many as the counter, which is between 1 and 3; and when the promise
  is resolved, which is when the awaiting \<open>loadContent\<close> gets its value, there have been
  exactly three retries and four requests, and the value is the fallback document of a
  failing answer. The promise is resolved, with the fallback of the fourth answer, when
  the four requests are answered and the timers fire with nothing else in between.
  A response is failing exactly when the request is rejected, the status is not ok, or
  the body is blank: the blank body of an ok response counts as a failure like the rest.
\<close>

theorem retry_ceiling_without_clearCache:
  assumes "retryAttempts cfg = 3"
    and "st0 = run cfg earlier (new_loop t)"
    and "retries_of st0 tabId = 0"
    and "cache_read cfg useCache st0 tabId = None"
    and "loadingPromises st0 tabId = None"
    and "\<forall>ev\<in>set events. \<not> clears tabId ev"
    and "\<forall>response. Respond (promises st0) response \<in> set events \<longrightarrow> failing response"
    and "st = run cfg events (snd (load_call cfg tabId useCache st0))"
  shows "(failing r \<longleftrightarrow>
            (case r of NetworkError message \<Rightarrow> True
             | Response ok status statusText responseText \<Rightarrow> \<not> ok \<or> trim responseText = []))
       \<and> fst (load_call cfg tabId useCache st0) = Pending (promises st0)
       \<and> (\<forall>n. (promises st0, tabId, Fetching n) \<in> set (chains st) \<longrightarrow>
             n \<le> 3 \<and> retries_of st tabId = n \<and> sent cfg st tabId = sent cfg st0 tabId + n + 1)
       \<and> (\<forall>due. (promises st0, tabId, Sleeping due) \<in> set (chains st) \<longrightarrow>
             0 < retries_of st tabId \<and> retries_of st tabId \<le> 3
             \<and> sent cfg st tabId = sent cfg st0 tabId + retries_of st tabId)
       \<and> (\<forall>c. (promises st0, tabId, c) \<in> set (resolved st) \<longrightarrow>
             retries_of st tabId = 3 \<and> sent cfg st tabId = sent cfg st0 tabId + 4
             \<and> (\<exists>response. failing response
                   \<and> c = getFallbackContent cfg tabId (error_message response)))
       \<and> (\<forall>r1 r2 r3 r4. failing r1 \<and> failing r2 \<and> failing r3 \<and> failing r4 \<longrightarrow>
             (promises st0, tabId, getFallbackContent cfg tabId (error_message r4))
               \<in> set (resolved (run cfg (retry_schedule cfg (promises st0) 0 [r1, r2, r3, r4])
                                   (snd (load_call cfg tabId useCache st0)))))"
proof -
  let ?p = "promises st0"
  let ?started = "snd (load_call cfg tabId useCache st0)"
  have inv: "loop_inv st0" unfolding assms(2) by (rule loop_inv_run[OF loop_inv_new])
  from retrying_after_load[OF assms(2-7)]
  have r: "retrying cfg tabId ?p (sent cfg st0 tabId) st" unfolding assms(8) .
  have 1: "failing r \<longleftrightarrow>
            (case r of NetworkError message \<Rightarrow> True
             | Response ok status statusText responseText \<Rightarrow> \<not> ok \<or> trim responseText = [])"
    by (rule failing_iff)
  from assms(4,5) have 2: "fst (load_call cfg tabId useCache st0) = Pending ?p"
    by (simp add: load_call_def Let_def)
  have 3: "\<forall>n. (?p, tabId, Fetching n) \<in> set (chains st) \<longrightarrow>
             n \<le> 3 \<and> retries_of st tabId = n \<and> sent cfg st tabId = sent cfg st0 tabId + n + 1"
  proof (intro allI impI)
    fix n assume "(?p, tabId, Fetching n) \<in> set (chains st)"
    with r have "n \<le> retryAttempts cfg \<and> retries_of st tabId = n
        \<and> sent cfg st tabId = sent cfg st0 tabId + n + 1"
      unfolding retrying_def by blast
    then show "n \<le> 3 \<and> retries_of st tabId = n \<and> sent cfg st tabId = sent cfg st0 tabId + n + 1"
      by (simp only: assms(1))
  qed
  have 4: "\<forall>due. (?p, tabId, Sleeping due) \<in> set (chains st) \<longrightarrow>
             0 < retries_of st tabId \<and> retries_of st tabId \<le> 3
             \<and> sent cfg st tabId = sent cfg st0 tabId + retries_of st tabId"
  proof (intro allI impI)
    fix due assume "(?p, tabId, Sleeping due) \<in> set (chains st)"
    with r have "0 < retries_of st tabId \<and> retries_of st tabId \<le> retryAttempts cfg
        \<and> sent cfg st tabId = sent cfg st0 tabId + retries_of st tabId"
      unfolding retrying_def by blast
    then show "0 < retries_of st tabId \<and> retries_of st tabId \<le> 3
             \<and> sent cfg st tabId = sent cfg st0 tabId + retries_of st tabId"
      by (simp only: assms(1))
  qed
  have 5: "\<forall>c. (?p, tabId, c) \<in> set (resolved st) \<longrightarrow>
             retries_of st tabId = 3 \<and> sent cfg st tabId = sent cfg st0 tabId + 4
             \<and> (\<exists>response. failing response
                   \<and> c = getFallbackContent cfg tabId (error_message response))"
  proof (intro allI impI)
    fix c assume "(?p, tabId, c) \<in> set (resolved st)"
    with r have "retries_of st tabId = retryAttempts cfg
        \<and> sent cfg st tabId = sent cfg st0 tabId + retryAttempts cfg + 1
        \<and> (\<exists>response. failing response
              \<and> c = getFallbackContent cfg tabId (error_message response))"
      unfolding retrying_def by blast
    then have a: "retries_of st tabId = 3" and b: "sent cfg st tabId = sent cfg st0 tabId + 3 + 1"
      and e: "\<exists>response. failing response \<and> c = getFallbackContent cfg tabId (error_message response)"
      by (simp_all only: assms(1))
    from b have "sent cfg st tabId = sent cfg st0 tabId + 4" by arith
    with a e show "retries_of st tabId = 3 \<and> sent cfg st tabId = sent cfg st0 tabId + 4
             \<and> (\<exists>response. failing response
                   \<and> c = getFallbackContent cfg tabId (error_message response))"
      by (intro conjI)
  qed
  have 6: "\<forall>r1 r2 r3 r4. failing r1 \<and> failing r2 \<and> failing r3 \<and> failing r4 \<longrightarrow>
             (?p, tabId, getFallbackContent cfg tabId (error_message r4))
               \<in> set (resolved (run cfg (retry_schedule cfg ?p 0 [r1, r2, r3, r4]) ?started))"
  proof (intro allI impI)
    fix r1 r2 r3 r4 assume f: "failing r1 \<and> failing r2 \<and> failing r3 \<and> failing r4"
    have len: "0 + length [r1, r2, r3, r4] = retryAttempts cfg + 1" by (simp add: assms(1))
    from f have all: "\<forall>response\<in>set [r1, r2, r3, r4]. failing response" by simp
    have "last [r1, r2, r3, r4] = r4" by simp
    with retry_schedule_resolves[OF loop_inv_load[OF inv] retrying_start(2)[OF inv assms(3-5)] _ len all]
    show "(?p, tabId, getFallbackContent cfg tabId (error_message r4))
            \<in> set (resolved (run cfg (retry_schedule cfg ?p 0 [r1, r2, r3, r4]) ?started))"
      by simp
  qed
  from 1 2 3 4 5 6 show ?thesis by (intro conjI)
qed

theorem retry_ceiling_without_clearCache_witness:
  "resolved (run APP_CONFIG
      [Respond 0 (NetworkError ''Failed to fetch''), Load ''map'' True, Tick 1000, Timer 0,
       Respond 0 (Response True 200 ''OK'' ''''), ClearCache (Some ''map''), Tick 2000, Timer 0,
       Respond 0 (Response False 503 ''Service Unavailable'' ''''), Tick 3000, Timer 0,
       Respond 0 (NetworkError ''Failed to fetch'')]
      (snd (load_call APP_CONFIG ''vector'' True (run APP_CONFIG [] (new_loop 0)))))
    = [(0, ''vector'', getFallbackContent APP_CONFIG ''vector'' ''Failed to fetch'')]
   \<and> failing (Response True 200 ''OK'' '''')
   \<and> retries_of (run APP_CONFIG
      [Respond 0 (NetworkError ''Failed to fetch''), Load ''map'' True, Tick 1000, Timer 0,
       Respond 0 (Response True 200 ''OK'' ''''), ClearCache (Some ''map''), Tick 2000, Timer 0,
       Respond 0 (Response False 503 ''Service Unavailable'' ''''), Tick 3000, Timer 0,
       Respond 0 (NetworkError ''Failed to fetch'')]
      (snd (load_call APP_CONFIG ''vector'' True (run APP_CONFIG [] (new_loop 0))))) ''vector'' = 3
   \<and> sent APP_CONFIG (run APP_CONFIG
      [Respond 0 (NetworkError ''Failed to fetch''), Load ''map'' True, Tick 1000, Timer 0,
       Respond 0 (Response True 200 ''OK'' ''''), ClearCache (Some ''map''), Tick 2000, Timer 0,
       Respond 0 (Response False 503 ''Service Unavailable'' ''''), Tick 3000, Timer 0,
       Respond 0 (NetworkError ''Failed to fetch'')]
      (snd (load_call APP_CONFIG ''vector'' True (run APP_CONFIG [] (new_loop 0))))) ''vector'' = 4"
proof -
  let ?events = "[Respond 0 (NetworkError ''Failed to fetch''), Load ''map'' True, Tick 1000, Timer 0,
       Respond 0 (Response True 200 ''OK'' ''''), ClearCache (Some ''map''), Tick 2000, Timer 0,
       Respond 0 (Response False 503 ''Service Unavailable'' ''''), Tick 3000, Timer 0,
       Respond 0 (NetworkError ''Failed to fetch'')]"
  let ?init = "run APP_CONFIG [] (new_loop 0)"
  let ?final = "run APP_CONFIG ?events (snd (load_call APP_CONFIG ''vector'' True ?init))"
  have n: "retryAttempts APP_CONFIG = 3" by (simp add: APP_CONFIG_def)
  have z: "retries_of ?init ''vector'' = 0" by (simp add: run_def retries_of_def new_loop_def)
  have miss: "cache_read APP_CONFIG True ?init ''vector'' = None"
    by (simp add: run_def cache_read_def new_loop_def)
  have idle: "loadingPromises ?init ''vector'' = None" by (simp add: run_def new_loop_def)
  have p: "promises ?init = 0" by (simp add: run_def new_loop_def)
  have s0: "sent APP_CONFIG ?init ''vector'' = 0" by (simp add: run_def sent_def new_loop_def)
  have f: "failing (NetworkError ''Failed to fetch'')" "failing (Response True 200 ''OK'' '''')"
    "failing (Response False 503 ''Service Unavailable'' '''')"
    by (simp_all add: failing_iff trim_def)
  have quiet: "\<forall>ev\<in>set ?events. \<not> clears ''vector'' ev" by simp
  have answers: "\<forall>response. Respond (promises ?init) response \<in> set ?events \<longrightarrow> failing response"
    unfolding p using f by auto
  let ?fallback = "getFallbackContent APP_CONFIG ''vector'' ''Failed to fetch''"
  have mem: "(promises ?init, ''vector'', ?fallback) \<in> set (resolved ?final)"
    by (simp only: undisturbed_run p) simp
  note ceiling = retry_ceiling_without_clearCache[OF n refl z miss idle quiet answers refl]
  from ceiling[THEN conjunct2, THEN conjunct2, THEN conjunct2, THEN conjunct2, THEN conjunct1] mem
  have "retries_of ?final ''vector'' = 3
      \<and> sent APP_CONFIG ?final ''vector'' = sent APP_CONFIG ?init ''vector'' + 4"
    by blast
  then have 3: "retries_of ?final ''vector'' = 3" and 4: "sent APP_CONFIG ?final ''vector'' = 4"
    by (simp_all only: s0 add_0)
  show ?thesis
  proof (intro conjI)
    show "resolved ?final = [(0, ''vector'', ?fallback)]" by (rule undisturbed_run)
    show "failing (Response True 200 ''OK'' '''')" by (rule f(2))
    show "retries_of ?final ''vector'' = 3" by (rule 3)
    show "sent APP_CONFIG ?final ''vector'' = 4" by (rule 4)
  qed
qed

text \<open>The claim as it stands fails when the cache is cleared during the first wait:
  with \<open>retryAttempts = 3\<close>, a counter of zero and every request rejected, \<open>clearCache()\<close>
  sets the counter back, and the load sends five requests (four retries) before its
  promise is resolved with the fallback document.\<close>

theorem retry_ceiling_cleared_counterexample:
  "retryAttempts APP_CONFIG = 3
   \<and> retries_of (new_loop 0) ''vector'' = 0
   \<and> failing (offline 0 ''./content/vector.html'') \<and> failing (offline 1 ''./content/vector.html'')
   \<and> failing (offline 2 ''./content/vector.html'') \<and> failing (offline 3 ''./content/vector.html'')
   \<and> failing (offline 4 ''./content/vector.html'')
   \<and> resolved (run APP_CONFIG
      [Load ''vector'' True, Respond 0 (offline 0 ''./content/vector.html''),
       ClearCache None, Tick 1000, Timer 0, Respond 0 (offline 1 ''./content/vector.html''),
       Tick 1000, Timer 0, Respond 0 (offline 2 ''./content/vector.html''),
       Tick 2000, Timer 0, Respond 0 (offline 3 ''./content/vector.html''),
       Tick 3000, Timer 0, Respond 0 (offline 4 ''./content/vector.html'')] (new_loop 0))
     = [(0, ''vector'', getFallbackContent APP_CONFIG ''vector'' ''Failed to fetch'')]
   \<and> requests (run APP_CONFIG
      [Load ''vector'' True, Respond 0 (offline 0 ''./content/vector.html''),
       ClearCache None, Tick 1000, Timer 0, Respond 0 (offline 1 ''./content/vector.html''),
       Tick 1000, Timer 0, Respond 0 (offline 2 ''./content/vector.html''),
       Tick 2000, Timer 0, Respond 0 (offline 3 ''./content/vector.html''),
       Tick 3000, Timer 0, Respond 0 (offline 4 ''./content/vector.html'')] (new_loop 0))
     = [''./content/vector.html'', ''./content/vector.html'', ''./content/vector.html'',
        ''./content/vector.html'', ''./content/vector.html'']"
proof -
  have 1: "retryAttempts APP_CONFIG = 3" by (simp add: APP_CONFIG_def)
  have 2: "retries_of (new_loop 0) ''vector'' = 0" by (simp add: retries_of_def new_loop_def)
  have 3: "failing (offline n u)" for n u using offline_failing by simp
  from 1 2 3 cleared_run show ?thesis by simp
qed

end
